theory Spec2Isabelle
  imports
    Main
    "HOL-Library.AList"
    "HOL-Library.Char_ord"
    "HOL-Library.List_Lexorder"
    "HOL-Library.Product_Lexorder"
begin

section \<open>Data model\<close>

text \<open>
  A Python \<open>str\<close> is modelled as the list of its code points, within the range
  \<open>0..255\<close> that \<^typ>\<open>char\<close> offers. The order on strings is the lexicographic order
  on code points, which is how Python compares \<open>str\<close> values.

  A decoded JSON document is what \<open>json.load\<close> returns: \<open>None\<close>, \<open>bool\<close>, \<open>int\<close>,
  \<open>float\<close>, \<open>str\<close>, \<open>list\<close> and \<open>dict\<close> with \<open>str\<close> keys. A \<open>dict\<close> keeps its
  insertion order, so it is an association list; its keys are distinct
  (\<open>wf_json\<close> below).
\<close>

datatype pyfloat = Finite int int | Infinity bool | NaN

datatype json =
    JNull
  | JBool bool
  | JInt int
  | JFloat pyfloat
  | JStr string
  | JArr "json list"
  | JObj "(string \<times> json) list"

datatype error =
    AttributeError
  | TypeError
  | KeyError
  | ValueError
  | RecursionError
  | ImportError
  | FileNotFoundError
  | NotFoundError

text \<open>A \<open>dict\<close> has every key once, at every depth.\<close>

fun wf_json :: "json \<Rightarrow> bool" where
  "wf_json (JArr xs) = list_all wf_json xs"
| "wf_json (JObj kvs) = (distinct (map fst kvs) \<and> list_all (\<lambda>kv. wf_json (snd kv)) kvs)"
| "wf_json _ = True"

text \<open>\<open>d[k] = v\<close> on a \<open>dict\<close>: an existing key keeps its place, a new key goes last.\<close>

definition dict_set :: "('k \<times> 'v) list \<Rightarrow> 'k \<Rightarrow> 'v \<Rightarrow> ('k \<times> 'v) list" where
  "dict_set d k v = AList.update k v d"

text \<open>
  \<open>x.get(k, default)\<close>: only a \<open>dict\<close> has the method; on any other JSON value the
  attribute lookup raises \<open>AttributeError\<close>.
\<close>

definition py_get :: "json \<Rightarrow> string \<Rightarrow> json \<Rightarrow> error + json" where
  "py_get x k dflt =
     (case x of
        JObj kvs \<Rightarrow> Inr (case map_of kvs k of Some v \<Rightarrow> v | None \<Rightarrow> dflt)
      | _ \<Rightarrow> Inl AttributeError)"

text \<open>\<open>sub in s\<close> on two \<open>str\<close> values: \<open>sub\<close> occurs in \<open>s\<close> as a substring.\<close>

fun is_prefix :: "string \<Rightarrow> string \<Rightarrow> bool" where
  "is_prefix [] s = True"
| "is_prefix (p # ps) [] = False"
| "is_prefix (p # ps) (c # cs) = (p = c \<and> is_prefix ps cs)"

fun str_contains :: "string \<Rightarrow> string \<Rightarrow> bool" where
  "str_contains sub [] = (sub = [])"
| "str_contains sub (c # cs) = (is_prefix sub (c # cs) \<or> str_contains sub cs)"

text \<open>
  \<open>tag in x\<close> for a \<open>str\<close> \<open>tag\<close>: key membership on a \<open>dict\<close>, element membership
  on a \<open>list\<close>, substring test on a \<open>str\<close>, and \<open>TypeError\<close> on the values that are
  not iterable.
\<close>

fun py_in :: "string \<Rightarrow> json \<Rightarrow> error + bool" where
  "py_in tag (JObj kvs) = Inr (tag \<in> set (map fst kvs))"
| "py_in tag (JArr xs) = Inr (JStr tag \<in> set xs)"
| "py_in tag (JStr s) = Inr (str_contains tag s)"
| "py_in tag _ = Inl TypeError"

text \<open>\<open>str(n)\<close> for an \<open>int\<close>: its decimal digits, with a minus sign when negative.\<close>

definition digit_char :: "nat \<Rightarrow> char" where
  "digit_char n = ''0123456789'' ! n"

fun str_nat :: "nat \<Rightarrow> string" where
  "str_nat n = (if n < 10 then [digit_char n] else str_nat (n div 10) @ [digit_char (n mod 10)])"

declare str_nat.simps [simp del]

definition str_int :: "int \<Rightarrow> string" where
  "str_int i = (if i < 0 then CHR ''-'' # str_nat (nat (- i)) else str_nat (nat i))"

section \<open>update_schema.py\<close>

text \<open>The tag registry is a \<open>dict[str, str]\<close>: tag name to type name, in insertion order.\<close>

type_synonym tag_registry = "(string \<times> string) list"

definition get_existing_tag_definitions :: "json \<Rightarrow> error + json" where
  "get_existing_tag_definitions schema =
     (case py_get schema ''properties'' (JObj []) of
        Inl e \<Rightarrow> Inl e
      | Inr props \<Rightarrow>
          (case py_get props ''tags'' (JObj []) of
             Inl e \<Rightarrow> Inl e
           | Inr tags \<Rightarrow> py_get tags ''properties'' (JObj [])))"

definition tagScalar_ref :: json where
  "tagScalar_ref = JObj [(''$ref'', JStr ''#/$defs/tagScalar'')]"

definition tagValue_ref :: json where
  "tagValue_ref = JObj [(''$ref'', JStr ''#/$defs/tagValue'')]"

definition type_map :: "(string \<times> json) list" where
  "type_map =
     [(''string'', JObj [(''type'', JStr ''string'')]),
      (''integer'', JObj [(''type'', JStr ''integer'')]),
      (''number'', JObj [(''type'', JStr ''number'')]),
      (''boolean'', JObj [(''type'', JStr ''boolean'')]),
      (''null'', JObj [(''type'', JStr ''null'')]),
      (''array'', JObj [(''type'', JStr ''array''), (''items'', tagScalar_ref)]),
      (''object'', JObj [(''type'', JStr ''object''), (''additionalProperties'', tagScalar_ref)])]"

definition type_name_to_json_schema :: "string \<Rightarrow> json" where
  "type_name_to_json_schema type_name =
     (case map_of type_map type_name of Some d \<Rightarrow> d | None \<Rightarrow> tagValue_ref)"

text \<open>
  The loop \<open>for tag_name, type_name in sorted(tag_registry.items())\<close>, which stores one
  entry in \<open>tag_properties\<close> per step. Tuples are compared lexicographically.
\<close>

definition build_tag_properties :: "tag_registry \<Rightarrow> (string \<times> json) list" where
  "build_tag_properties tag_registry =
     foldl (\<lambda>tag_properties (tag_name, type_name).
              dict_set tag_properties tag_name (type_name_to_json_schema type_name))
       [] (sort tag_registry)"

text \<open>
  The interpreter converts an \<open>int\<close> to decimal text only up to its digit limit,
  \<open>sys.int_info.default_max_str_digits\<close>: beyond it the conversion raises
  \<open>ValueError\<close>. The sign is not counted. The limit holds for an f-string field and
  for \<open>json.dumps\<close>.
\<close>

definition int_max_str_digits :: nat where
  "int_max_str_digits = 4300"

definition digits_of :: "int \<Rightarrow> nat" where
  "digits_of i = length (str_nat (nat \<bar>i\<bar>))"

definition format_int :: "int \<Rightarrow> error + string" where
  "format_int i = (if int_max_str_digits < digits_of i then Inl ValueError else Inr (str_int i))"

text \<open>\<open>f"PlaneQuery Aircraft Community Submission (v{new_version})"\<close>\<close>

definition schema_title :: "int \<Rightarrow> error + string" where
  "schema_title new_version =
     (case format_int new_version of
        Inl e \<Rightarrow> Inl e
      | Inr digits \<Rightarrow> Inr (''PlaneQuery Aircraft Community Submission (v'' @ digits @ '')''))"

text \<open>
  \<open>json.loads(json.dumps(base_schema))\<close>: the text of a decoded JSON document reads
  back as an equal document. \<open>json.dumps\<close> raises \<open>ValueError\<close> on an \<open>int\<close> beyond
  the digit limit.
\<close>

fun within_digit_limit :: "json \<Rightarrow> bool" where
  "within_digit_limit (JInt i) = (digits_of i \<le> int_max_str_digits)"
| "within_digit_limit (JArr xs) = list_all within_digit_limit xs"
| "within_digit_limit (JObj kvs) = list_all (\<lambda>kv. within_digit_limit (snd kv)) kvs"
| "within_digit_limit _ = True"

definition json_round_trip :: "json \<Rightarrow> error + json" where
  "json_round_trip document =
     (if within_digit_limit document then Inr document else Inl ValueError)"

definition tags_definition :: "(string \<times> json) list \<Rightarrow> json" where
  "tags_definition tag_properties =
     JObj [(''type'', JStr ''object''),
           (''description'',
              JStr ''Community-defined tags. New tags can be added, but must use consistent types.''),
           (''propertyNames'',
              JObj [(''type'', JStr ''string''), (''pattern'', JStr ''^[a-z][a-z0-9_]{0,63}$'')]),
           (''properties'', JObj tag_properties),
           (''additionalProperties'', tagValue_ref)]"

text \<open>
  \<open>generate_new_schema\<close> on values, statement by statement: the copy, the title text,
  \<open>schema["title"] = ...\<close>, which needs a \<open>dict\<close>, the tag properties, and
  \<open>schema["properties"]["tags"] = ...\<close>, which raises \<open>KeyError\<close> when the key
  \<open>properties\<close> is missing and \<open>TypeError\<close> when its value takes no string index.
\<close>

definition generate_new_schema :: "json \<Rightarrow> tag_registry \<Rightarrow> int \<Rightarrow> error + json" where
  "generate_new_schema base_schema tag_registry new_version =
     (case json_round_trip base_schema of
        Inl e \<Rightarrow> Inl e
      | Inr copy \<Rightarrow>
     (case schema_title new_version of
        Inl e \<Rightarrow> Inl e
      | Inr title \<Rightarrow>
     (case copy of
        JObj kvs \<Rightarrow>
          (let schema = dict_set kvs ''title'' (JStr title);
               tag_properties = build_tag_properties tag_registry
           in case map_of schema ''properties'' of
                None \<Rightarrow> Inl KeyError
              | Some (JObj props) \<Rightarrow>
                  Inr (JObj (dict_set schema ''properties''
                         (JObj (dict_set props ''tags'' (tags_definition tag_properties)))))
              | Some _ \<Rightarrow> Inl TypeError)
      | _ \<Rightarrow> Inl TypeError)))"

text \<open>
  The comprehension \<open>[tag for tag in tag_registry if tag not in existing_tags]\<close>: the
  membership test runs once per tag, in the registry's order, and the first one that
  raises ends the loop.
\<close>

fun new_tags_loop :: "string list \<Rightarrow> json \<Rightarrow> error + string list" where
  "new_tags_loop [] existing_tags = Inr []"
| "new_tags_loop (tag # tags) existing_tags =
     (case py_in tag existing_tags of
        Inl e \<Rightarrow> Inl e
      | Inr present \<Rightarrow>
          (case new_tags_loop tags existing_tags of
             Inl e \<Rightarrow> Inl e
           | Inr rest \<Rightarrow> Inr (if present then rest else tag # rest)))"

definition check_for_new_tags :: "tag_registry \<Rightarrow> json \<Rightarrow> error + string list" where
  "check_for_new_tags tag_registry current_schema =
     (case get_existing_tag_definitions current_schema of
        Inl e \<Rightarrow> Inl e
      | Inr existing_tags \<Rightarrow> new_tags_loop (map fst tag_registry) existing_tags)"

section \<open>The schema store\<close>

text \<open>
  The schema directory holds one file per version. A file's content is the JSON text of
  one document, so the directory is modelled as the association from version numbers to
  the documents that \<open>json.load\<close> reads back from the files.
\<close>

type_synonym schema_store = "(int \<times> json) list"

text \<open>
  Modelled from the spec: \<open>get_latest_schema_version\<close> is imported from
  \<open>schema.py\<close> but not defined in the source at hand. Spec 4.3: it "returns the
  greatest version number among persisted schema documents; fails with
  \<open>NotFoundError\<close> if none exist".
\<close>

definition get_latest_schema_version :: "schema_store \<Rightarrow> error + int" where
  "get_latest_schema_version store =
     (case map fst store of
        [] \<Rightarrow> Inl NotFoundError
      | v # vs \<Rightarrow> Inr (fold max vs v))"

text \<open>
  Modelled from the spec: \<open>load_schema\<close> with a version argument is not defined in
  the source at hand. Spec 4.3: \<open>load(version)\<close> "fails with \<open>NotFoundError\<close> if the
  requested version does not exist".
\<close>

definition load_schema :: "schema_store \<Rightarrow> int \<Rightarrow> error + json" where
  "load_schema store version =
     (case map_of store version of
        None \<Rightarrow> Inl NotFoundError
      | Some document \<Rightarrow> Inr document)"

text \<open>
  The write of \<open>create_new_schema_version\<close> and of \<open>regenerate_pr_schema.main\<close>:
  \<open>open(new_schema_path, "w")\<close> creates the file or truncates the one that is there,
  and \<open>json.dump\<close> fills it. Nothing is checked before.
\<close>

definition write_schema :: "schema_store \<Rightarrow> int \<Rightarrow> json \<Rightarrow> schema_store" where
  "write_schema store version document = dict_set store version document"

text \<open>
  \<open>create_new_schema_version\<close>, with the schema directory passed in and returned.
\<close>

definition create_new_schema_version ::
  "schema_store \<Rightarrow> tag_registry \<Rightarrow> bool \<Rightarrow> error + ((int option \<times> string list) \<times> schema_store)"
where
  "create_new_schema_version store tag_registry check_only =
     (case get_latest_schema_version store of
        Inl e \<Rightarrow> Inl e
      | Inr current_version \<Rightarrow>
     (case load_schema store current_version of
        Inl e \<Rightarrow> Inl e
      | Inr current_schema \<Rightarrow>
     (case check_for_new_tags tag_registry current_schema of
        Inl e \<Rightarrow> Inl e
      | Inr new_tags \<Rightarrow>
          if new_tags = [] then Inr ((None, []), store)
          else if check_only then Inr ((Some (current_version + 1), new_tags), store)
          else
            (let new_version = current_version + 1
             in case generate_new_schema current_schema tag_registry new_version of
                  Inl e \<Rightarrow> Inl e
                | Inr new_schema \<Rightarrow>
                    Inr ((Some new_version, new_tags),
                         write_schema store new_version new_schema)))))"

section \<open>Regular expressions of schema.py\<close>

text \<open>
  \<open>str.isspace\<close> on one code point below 256. It is the test of \<open>str.strip()\<close> and of
  the class \<open>\s\<close> of the module \<open>re\<close> on \<open>str\<close> patterns.
\<close>

definition isspace :: "char \<Rightarrow> bool" where
  "isspace c = (c \<in> set [CHR 0x09, CHR 0x0A, CHR 0x0B, CHR 0x0C, CHR 0x0D, CHR 0x1C, CHR 0x1D,
                         CHR 0x1E, CHR 0x1F, CHR 0x20, CHR 0x85, CHR 0xA0])"

definition strip :: "string \<Rightarrow> string" where
  "strip s = rev (dropWhile isspace (rev (dropWhile isspace s)))"

definition startswith :: "string \<Rightarrow> string \<Rightarrow> bool" where
  "startswith s p = is_prefix p s"

definition endswith :: "string \<Rightarrow> string \<Rightarrow> bool" where
  "endswith s p = is_prefix (rev p) (rev s)"

text \<open>
  The patterns of the source are sequences of the following pieces: literal text, a
  character class \<open>[...]\<close>, a class under the greedy \<open>*\<close>, under the lazy \<open>*?\<close> or under
  the greedy \<open>{0,n}\<close>, an optional literal \<open>(?:...)?\<close>, the parentheses of group 1, a
  lookahead \<open>(?=...|...)\<close> over literals and \<open>$\<close>, and the anchors \<open>^\<close> and \<open>$\<close>.
\<close>

datatype class_item = Ch char | Rng char char | Esc_s | Esc_S

fun item_matches :: "class_item \<Rightarrow> char \<Rightarrow> bool" where
  "item_matches (Ch a) c = (c = a)"
| "item_matches (Rng a b) c = (a \<le> c \<and> c \<le> b)"
| "item_matches Esc_s c = isspace c"
| "item_matches Esc_S c = (\<not> isspace c)"

definition in_class :: "class_item list \<Rightarrow> char \<Rightarrow> bool" where
  "in_class items c = list_ex (\<lambda>i. item_matches i c) items"

datatype look = LookLit string | LookEnd

datatype atom =
    Lit string
  | Cls "class_item list"
  | Star "class_item list"
  | LazyStar "class_item list"
  | Rep "class_item list" nat
  | Opt string
  | GroupOpen
  | GroupClose
  | Ahead "look list"
  | Bol
  | Eol

text \<open>
  Without the flag \<open>MULTILINE\<close>, \<open>$\<close> matches at the end of the text and just before a
  newline that ends the text.
\<close>

definition at_end :: "string \<Rightarrow> bool" where
  "at_end s = (s = [] \<or> s = [CHR 0x0A])"

fun look_ok :: "look \<Rightarrow> string \<Rightarrow> bool" where
  "look_ok (LookLit l) s = is_prefix l s"
| "look_ok LookEnd s = at_end s"

text \<open>
  The backtracking matcher of \<open>re\<close>: \<open>re_match pieces s pos g\<close> matches the pieces at the
  head of the remaining text \<open>s\<close>, which starts at offset \<open>pos\<close> of the whole text, with
  \<open>g\<close> the offsets of group 1 so far. It returns the group's offsets and the offset where
  the match ends, for the first match in the order in which the engine tries them: a
  greedy piece takes one more character before it tries to go on, a lazy piece tries to
  go on before it takes one more.
\<close>

type_synonym span = "nat \<times> nat"

fun re_match :: "atom list \<Rightarrow> string \<Rightarrow> nat \<Rightarrow> span \<Rightarrow> (span \<times> nat) option" where
  "re_match [] s pos g = Some (g, pos)"
| "re_match (Lit l # as) s pos g =
     (if is_prefix l s then re_match as (drop (length l) s) (pos + length l) g else None)"
| "re_match (Cls c # as) [] pos g = None"
| "re_match (Cls c # as) (x # xs) pos g =
     (if in_class c x then re_match as xs (Suc pos) g else None)"
| "re_match (Star c # as) [] pos g = re_match as [] pos g"
| "re_match (Star c # as) (x # xs) pos g =
     (if in_class c x
      then (case re_match (Star c # as) xs (Suc pos) g of
              Some r \<Rightarrow> Some r
            | None \<Rightarrow> re_match as (x # xs) pos g)
      else re_match as (x # xs) pos g)"
| "re_match (LazyStar c # as) [] pos g = re_match as [] pos g"
| "re_match (LazyStar c # as) (x # xs) pos g =
     (case re_match as (x # xs) pos g of
        Some r \<Rightarrow> Some r
      | None \<Rightarrow> if in_class c x then re_match (LazyStar c # as) xs (Suc pos) g else None)"
| "re_match (Rep c 0 # as) s pos g = re_match as s pos g"
| "re_match (Rep c (Suc n) # as) [] pos g = re_match as [] pos g"
| "re_match (Rep c (Suc n) # as) (x # xs) pos g =
     (if in_class c x
      then (case re_match (Rep c n # as) xs (Suc pos) g of
              Some r \<Rightarrow> Some r
            | None \<Rightarrow> re_match as (x # xs) pos g)
      else re_match as (x # xs) pos g)"
| "re_match (Opt l # as) s pos g =
     (if is_prefix l s
      then (case re_match as (drop (length l) s) (pos + length l) g of
              Some r \<Rightarrow> Some r
            | None \<Rightarrow> re_match as s pos g)
      else re_match as s pos g)"
| "re_match (GroupOpen # as) s pos g = re_match as s pos (pos, snd g)"
| "re_match (GroupClose # as) s pos g = re_match as s pos (fst g, pos)"
| "re_match (Ahead ls # as) s pos g =
     (if list_ex (\<lambda>l. look_ok l s) ls then re_match as s pos g else None)"
| "re_match (Bol # as) s pos g = (if pos = 0 then re_match as s pos g else None)"
| "re_match (Eol # as) s pos g = (if at_end s then re_match as s pos g else None)"

text \<open>\<open>re.search\<close>: the match at the leftmost offset that has one.\<close>

fun re_search_from :: "atom list \<Rightarrow> string \<Rightarrow> nat \<Rightarrow> (span \<times> nat) option" where
  "re_search_from re [] pos = re_match re [] pos (0, 0)"
| "re_search_from re (x # xs) pos =
     (case re_match re (x # xs) pos (0, 0) of
        Some r \<Rightarrow> Some r
      | None \<Rightarrow> re_search_from re xs (Suc pos))"

definition re_search :: "atom list \<Rightarrow> string \<Rightarrow> (span \<times> nat) option" where
  "re_search re s = re_search_from re s 0"

text \<open>\<open>match.group(1)\<close>, from the group's offsets in the whole text.\<close>

definition group1 :: "string \<Rightarrow> span \<Rightarrow> string" where
  "group1 s g = take (snd g - fst g) (drop (fst g) s)"

definition ws :: "class_item list" where
  "ws = [Esc_s]"

definition anychar :: "class_item list" where
  "anychar = [Esc_s, Esc_S]"

definition newline :: string where
  "newline = [CHR 0x0A]"

text \<open>\<^verbatim>\<open>### Submission JSON\s*\n\s*```(?:json)?\s*\n([\s\S]*?)\n\s*```\<close>\<close>

definition pattern_codeblock :: "atom list" where
  "pattern_codeblock =
     [Lit ''### Submission JSON'', Star ws, Lit newline, Star ws, Lit ''```'', Opt ''json'',
      Star ws, Lit newline, GroupOpen, LazyStar anychar, GroupClose, Lit newline, Star ws,
      Lit ''```'']"

text \<open>\<^verbatim>\<open>### Submission JSON\s*\n\s*([\[{][\s\S]*?[\]}])(?=\n###|\n\n###|$)\<close>\<close>

definition pattern_raw :: "atom list" where
  "pattern_raw =
     [Lit ''### Submission JSON'', Star ws, Lit newline, Star ws,
      GroupOpen, Cls [Ch CHR ''['', Ch CHR ''{''], LazyStar anychar,
      Cls [Ch CHR '']'', Ch CHR ''}''], GroupClose,
      Ahead [LookLit (newline @ ''###''), LookLit (newline @ newline @ ''###''), LookEnd]]"

text \<open>\<^verbatim>\<open>([\[{][\s\S]*?[\]}])\<close>\<close>

definition pattern_any :: "atom list" where
  "pattern_any =
     [GroupOpen, Cls [Ch CHR ''['', Ch CHR ''{''], LazyStar anychar,
      Cls [Ch CHR '']'', Ch CHR ''}''], GroupClose]"

text \<open>
  \<^verbatim>\<open>^[a-z][a-z0-9_]{0,63}$\<close>, the \<open>propertyNames\<close> pattern that \<open>generate_new_schema\<close>
  writes. The validator applies a \<open>pattern\<close> with \<open>re.search\<close>.
\<close>

definition tag_name_pattern :: "atom list" where
  "tag_name_pattern =
     [Bol, Cls [Rng CHR ''a'' CHR ''z''],
      Rep [Rng CHR ''a'' CHR ''z'', Rng CHR ''0'' CHR ''9'', Ch CHR ''_''] 63, Eol]"

definition tag_name_accepted :: "string \<Rightarrow> bool" where
  "tag_name_accepted name = (re_search tag_name_pattern name \<noteq> None)"

text \<open>A match ends at or after the offset where it starts, within the text.\<close>

lemma is_prefix_iff: "is_prefix p s \<longleftrightarrow> (\<exists>t. s = p @ t)"
  by (induction p s rule: is_prefix.induct) auto

lemma re_match_end:
  "re_match re s pos g = Some (g', e) \<Longrightarrow> pos \<le> e \<and> e \<le> pos + length s"
proof (induction re s pos g rule: re_match.induct)
  case (2 l as s pos g)
  then show ?case by (fastforce simp: is_prefix_iff split: if_splits)
next
  case (12 l as s pos g)
  then show ?case by (fastforce simp: is_prefix_iff split: if_splits option.splits)
qed (fastforce split: if_splits option.splits)+

lemma pattern_any_consumes:
  "re_search_from pattern_any s pos = Some (g, e) \<Longrightarrow> pos < e \<and> e \<le> pos + length s"
proof (induction s arbitrary: pos)
  case Nil
  then show ?case by (simp add: pattern_any_def)
next
  case (Cons x xs)
  show ?case
  proof (cases "re_match pattern_any (x # xs) pos (0, 0)")
    case None
    with Cons.prems have "re_search_from pattern_any xs (Suc pos) = Some (g, e)" by simp
    from Cons.IH [OF this] show ?thesis by simp
  next
    case (Some r)
    with Cons.prems have m: "re_match pattern_any (x # xs) pos (0, 0) = Some (g, e)" by simp
    then obtain g0 where "re_match (tl (tl pattern_any)) xs (Suc pos) g0 = Some (g, e)"
      by (auto simp: pattern_any_def split: if_splits)
    from re_match_end [OF this] show ?thesis by simp
  qed
qed

section \<open>schema.py\<close>

text \<open>
  What the module finds around it: the class \<open>Draft202012Validator\<close> of the package
  \<open>jsonschema\<close> when the import succeeded, \<open>json.loads\<close>, and the schema file at
  \<open>SCHEMA_PATH\<close> when it exists. \<open>iter_errors schema instance\<close> stands for
  \<open>Draft202012Validator(schema).iter_errors(instance)\<close>. A call of \<open>json.loads\<close>
  returns the decoded document, or raises \<open>JSONDecodeError\<close> with a message when the
  text is not JSON, or raises another exception: \<open>ValueError\<close> for an integer literal
  beyond the interpreter's digit limit, \<open>RecursionError\<close> for nesting that is too deep.
\<close>

datatype loads_outcome = Loaded json | JSONDecodeError string | Raises error

datatype path_element = Key string | Index int

record validation_error =
  path :: "path_element list"
  message :: string

record runtime =
  iter_errors :: "(json \<Rightarrow> json \<Rightarrow> validation_error list) option"
  json_loads :: "string \<Rightarrow> loads_outcome"
  schema_file :: "json option"

text \<open>\<open>load_schema()\<close> of \<open>schema.py\<close>, which reads \<open>SCHEMA_PATH\<close>.\<close>

definition load_schema_file :: "runtime \<Rightarrow> error + json" where
  "load_schema_file rt =
     (case schema_file rt of None \<Rightarrow> Inl FileNotFoundError | Some schema \<Rightarrow> Inr schema)"

fun str_path_element :: "path_element \<Rightarrow> string" where
  "str_path_element (Key k) = k"
| "str_path_element (Index i) = str_int i"

text \<open>\<open>sep.join(parts)\<close>\<close>

fun join :: "string \<Rightarrow> string list \<Rightarrow> string" where
  "join sep [] = []"
| "join sep [p] = p"
| "join sep (p # q # ps) = p @ sep @ join sep (q # ps)"

definition error_path :: "validation_error \<Rightarrow> string" where
  "error_path err =
     (if path err \<noteq> [] then join ''.'' (map str_path_element (path err)) else ''(root)'')"

definition index_prefix :: "nat \<Rightarrow> nat \<Rightarrow> string" where
  "index_prefix i n = (if n > 1 then ''['' @ str_nat i @ ''] '' else [])"

definition format_error :: "string \<Rightarrow> validation_error \<Rightarrow> string" where
  "format_error prefix err = prefix @ error_path err @ '': '' @ message err"

definition validate_submission :: "runtime \<Rightarrow> json \<Rightarrow> json option \<Rightarrow> error + string list" where
  "validate_submission rt data schema =
     (case iter_errors rt of
        None \<Rightarrow> Inl ImportError
      | Some validator \<Rightarrow>
          (case (case schema of None \<Rightarrow> load_schema_file rt | Some given \<Rightarrow> Inr given) of
             Inl e \<Rightarrow> Inl e
           | Inr schema' \<Rightarrow>
               (let submissions = (case data of JArr items \<Rightarrow> items | _ \<Rightarrow> [data])
                in Inr (concat (map (\<lambda>(i, submission).
                          map (format_error (index_prefix i (length submissions)))
                            (validator schema' submission))
                        (enumerate 0 submissions))))))"

definition parse_and_validate ::
  "runtime \<Rightarrow> string \<Rightarrow> json option \<Rightarrow> error + (json option \<times> string list)"
where
  "parse_and_validate rt json_str schema =
     (case json_loads rt json_str of
        JSONDecodeError e \<Rightarrow> Inr (None, [''Invalid JSON: '' @ e])
      | Raises err \<Rightarrow> Inl err
      | Loaded data \<Rightarrow>
          (case validate_submission rt data schema of
             Inl err \<Rightarrow> Inl err
           | Inr errors \<Rightarrow> Inr (Some data, errors)))"

text \<open>
  The fallback loop over \<open>re.finditer(pattern_any, body)\<close>: the matches from left to
  right, each searched from the end of the one before.
\<close>

function fallback_scan :: "string \<Rightarrow> nat \<Rightarrow> string option" where
  "fallback_scan body pos =
     (case re_search_from pattern_any (drop pos body) pos of
        None \<Rightarrow> None
      | Some (g, e) \<Rightarrow>
          (let candidate = strip (group1 body g)
           in if startswith candidate ''{'' \<and> endswith candidate ''}'' then Some candidate
              else if startswith candidate ''['' \<and> endswith candidate '']'' then Some candidate
              else fallback_scan body e))"
  by pat_completeness auto
termination
proof (relation "measure (\<lambda>(body, pos). length body - pos)")
  show "wf (measure (\<lambda>(body, pos). length body - pos))" by simp
next
  fix body :: string and pos x2 x y candidate
  assume "re_search_from pattern_any (drop pos body) pos = Some x2" and "(x, y) = x2"
  then have "re_search_from pattern_any (drop pos body) pos = Some (x, y)" by simp
  from pattern_any_consumes [OF this]
  show "((body, y), (body, pos)) \<in> measure (\<lambda>(body, pos). length body - pos)"
    by auto
qed

declare fallback_scan.simps [simp del]

definition extract_json_from_issue_body :: "string \<Rightarrow> string option" where
  "extract_json_from_issue_body body =
     (case re_search pattern_codeblock body of
        Some (g, e) \<Rightarrow> Some (strip (group1 body g))
      | None \<Rightarrow>
          (case re_search pattern_raw body of
             Some (g, e) \<Rightarrow> Some (strip (group1 body g))
           | None \<Rightarrow> fallback_scan body 0))"

section \<open>The generator on the heap\<close>

text \<open>
  A \<open>list\<close> or a \<open>dict\<close> is an object with an identity: two names may hold the same
  object, and a change through one shows through the other. The heap is the list of the
  objects created so far, an object's address is its index, and a value is immutable
  data or the address of a container. A \<open>dict\<close> here has \<open>str\<close> keys, as one read from
  a JSON file has.
\<close>

type_synonym addr = nat

datatype pyval = VNone | VBool bool | VInt int | VFloat pyfloat | VStr string | VRef addr

datatype pyobj = PList "pyval list" | PDict "(string \<times> pyval) list"

type_synonym heap = "pyobj list"

text \<open>All the results, when none is missing.\<close>

fun those_list :: "'a option list \<Rightarrow> 'a list option" where
  "those_list [] = Some []"
| "those_list (None # xs) = None"
| "those_list (Some x # xs) = (case those_list xs of None \<Rightarrow> None | Some ys \<Rightarrow> Some (x # ys))"

text \<open>
  \<open>json.dumps\<close> walks the objects from a value. \<open>markers\<close> holds the containers that
  are being written, and meeting one of them again is a circular reference, which raises
  \<open>ValueError\<close>: the result is then \<open>None\<close>, as it is for an address that holds no object.
  The document is the one that \<open>json.loads\<close> reads back from the text.
\<close>

function json_dumps :: "heap \<Rightarrow> addr list \<Rightarrow> pyval \<Rightarrow> json option" where
  "json_dumps h markers VNone = Some JNull"
| "json_dumps h markers (VBool b) = Some (JBool b)"
| "json_dumps h markers (VInt i) = Some (JInt i)"
| "json_dumps h markers (VFloat f) = Some (JFloat f)"
| "json_dumps h markers (VStr s) = Some (JStr s)"
| "json_dumps h markers (VRef a) =
     (if a \<in> set markers \<or> length h \<le> a then None
      else (case h ! a of
              PList items \<Rightarrow>
                map_option JArr (those_list (map (json_dumps h (a # markers)) items))
            | PDict entries \<Rightarrow>
                map_option JObj
                  (those_list (map (\<lambda>kv. map_option (Pair (fst kv)) (json_dumps h (a # markers) (snd kv)))
                     entries))))"
  by pat_completeness auto
termination
proof (relation "measure (\<lambda>(h, markers, v). card ({..<length h} - set markers))")
  show "wf (measure (\<lambda>(h, markers, v). card ({..<length h} - set markers)))" by simp
next
  fix h :: heap and markers :: "addr list" and a :: addr and x2 :: "pyval list" and z :: pyval
  assume "\<not> (a \<in> set markers \<or> length h \<le> a)"
  then have "a \<in> {..<length h} - set markers" by simp
  then have "card ({..<length h} - set markers - {a}) < card ({..<length h} - set markers)"
    by (intro card_Diff1_less) simp_all
  moreover have "{..<length h} - set (a # markers) = {..<length h} - set markers - {a}" by auto
  ultimately show "((h, a # markers, z), (h, markers, VRef a))
      \<in> measure (\<lambda>(h, markers, v). card ({..<length h} - set markers))" by simp
next
  fix h :: heap and markers :: "addr list" and a :: addr and x2 :: "(string \<times> pyval) list"
    and z :: "string \<times> pyval"
  assume "\<not> (a \<in> set markers \<or> length h \<le> a)"
  then have "a \<in> {..<length h} - set markers" by simp
  then have "card ({..<length h} - set markers - {a}) < card ({..<length h} - set markers)"
    by (intro card_Diff1_less) simp_all
  moreover have "{..<length h} - set (a # markers) = {..<length h} - set markers - {a}" by auto
  ultimately show "((h, a # markers, snd z), (h, markers, VRef a))
      \<in> measure (\<lambda>(h, markers, v). card ({..<length h} - set markers))" by simp
qed

declare json_dumps.simps(6) [simp del]

text \<open>
  \<open>json.loads\<close> and a \<open>dict\<close> display create one new object for each container of the
  document they build, the inner ones first.
\<close>

fun allocate :: "json \<Rightarrow> heap \<Rightarrow> pyval \<times> heap"
  and allocate_items :: "json list \<Rightarrow> heap \<Rightarrow> pyval list \<times> heap"
  and allocate_entries :: "(string \<times> json) list \<Rightarrow> heap \<Rightarrow> (string \<times> pyval) list \<times> heap"
where
  "allocate JNull h = (VNone, h)"
| "allocate (JBool b) h = (VBool b, h)"
| "allocate (JInt i) h = (VInt i, h)"
| "allocate (JFloat f) h = (VFloat f, h)"
| "allocate (JStr s) h = (VStr s, h)"
| "allocate (JArr xs) h =
     (case allocate_items xs h of (items, h') \<Rightarrow> (VRef (length h'), h' @ [PList items]))"
| "allocate (JObj kvs) h =
     (case allocate_entries kvs h of (entries, h') \<Rightarrow> (VRef (length h'), h' @ [PDict entries]))"
| "allocate_items [] h = ([], h)"
| "allocate_items (x # xs) h =
     (case allocate x h of (v, h') \<Rightarrow>
        (case allocate_items xs h' of (vs, h'') \<Rightarrow> (v # vs, h'')))"
| "allocate_entries [] h = ([], h)"
| "allocate_entries (kv # kvs) h =
     (case allocate (snd kv) h of (v, h') \<Rightarrow>
        (case allocate_entries kvs h' of (vs, h'') \<Rightarrow> ((fst kv, v) # vs, h'')))"

text \<open>
  \<open>x[key] = value\<close> and \<open>x[key]\<close> with a \<open>str\<close> key: a \<open>dict\<close> is updated in place; a
  \<open>list\<close> and the values that are no containers raise \<open>TypeError\<close>.
\<close>

definition heap_set_item :: "heap \<Rightarrow> pyval \<Rightarrow> string \<Rightarrow> pyval \<Rightarrow> error + heap" where
  "heap_set_item h x key val =
     (case x of
        VRef a \<Rightarrow>
          (if a < length h
           then (case h ! a of
                   PDict entries \<Rightarrow> Inr (h[a := PDict (dict_set entries key val)])
                 | PList items \<Rightarrow> Inl TypeError)
           else Inl TypeError)
      | _ \<Rightarrow> Inl TypeError)"

definition heap_get_item :: "heap \<Rightarrow> pyval \<Rightarrow> string \<Rightarrow> error + pyval" where
  "heap_get_item h x key =
     (case x of
        VRef a \<Rightarrow>
          (if a < length h
           then (case h ! a of
                   PDict entries \<Rightarrow>
                     (case map_of entries key of None \<Rightarrow> Inl KeyError | Some val \<Rightarrow> Inr val)
                 | PList items \<Rightarrow> Inl TypeError)
           else Inl TypeError)
      | _ \<Rightarrow> Inl TypeError)"

text \<open>
  \<open>generate_new_schema\<close> on the heap, statement by statement: the text of the base
  document, the objects that \<open>json.loads\<close> creates from it, the title assigned into the
  new top object, the objects of the tag properties and of the \<open>tags\<close> definition (each
  call of \<open>type_name_to_json_schema\<close> builds its table anew, so every fragment is a new
  object), and the assignment into the object that \<open>schema["properties"]\<close> holds. The
  right-hand side of an assignment is evaluated before its target.
\<close>

definition generate_new_schema_heap ::
  "heap \<Rightarrow> pyval \<Rightarrow> tag_registry \<Rightarrow> int \<Rightarrow> error + (pyval \<times> heap)"
where
  "generate_new_schema_heap h base_schema tag_registry new_version =
     (case json_dumps h [] base_schema of
        None \<Rightarrow> Inl ValueError
      | Some text \<Rightarrow>
     (case json_round_trip text of
        Inl e \<Rightarrow> Inl e
      | Inr document \<Rightarrow>
     (case allocate document h of (schema, h1) \<Rightarrow>
     (case schema_title new_version of
        Inl e \<Rightarrow> Inl e
      | Inr title \<Rightarrow>
     (case heap_set_item h1 schema ''title'' (VStr title) of
        Inl e \<Rightarrow> Inl e
      | Inr h2 \<Rightarrow>
     (case allocate (tags_definition (build_tag_properties tag_registry)) h2 of (tags, h3) \<Rightarrow>
     (case heap_get_item h3 schema ''properties'' of
        Inl e \<Rightarrow> Inl e
      | Inr props \<Rightarrow>
     (case heap_set_item h3 props ''tags'' tags of
        Inl e \<Rightarrow> Inl e
      | Inr h4 \<Rightarrow> Inr (schema, h4)))))))))"

text \<open>The objects of a document: those that are reached from its value.\<close>

fun children :: "pyobj \<Rightarrow> pyval list" where
  "children (PList items) = items"
| "children (PDict entries) = map snd entries"

inductive_set reach :: "heap \<Rightarrow> pyval \<Rightarrow> addr set" for h :: heap and v :: pyval where
  root: "v = VRef a \<Longrightarrow> a < length h \<Longrightarrow> a \<in> reach h v"
| child: "a \<in> reach h v \<Longrightarrow> VRef b \<in> set (children (h ! a)) \<Longrightarrow> b < length h \<Longrightarrow> b \<in> reach h v"

text \<open>
  A value is new since heap size \<open>n\<close> when it is no address below \<open>n\<close>; the objects from
  \<open>n\<close> on are separate when they hold only such values.
\<close>

fun new_since :: "nat \<Rightarrow> pyval \<Rightarrow> bool" where
  "new_since n (VRef b) = (n \<le> b)"
| "new_since n _ = True"

definition separate_from :: "nat \<Rightarrow> heap \<Rightarrow> bool" where
  "separate_from n h =
     (\<forall>a. n \<le> a \<and> a < length h \<longrightarrow> list_all (new_since n) (children (h ! a)))"

text \<open>Two heaps hold the same objects at the addresses from \<open>lo\<close> up to \<open>hi\<close>.\<close>

definition same_between :: "nat \<Rightarrow> nat \<Rightarrow> heap \<Rightarrow> heap \<Rightarrow> bool" where
  "same_between lo hi H h = (\<forall>x. lo \<le> x \<and> x < hi \<longrightarrow> x < length H \<and> H ! x = h ! x)"

section \<open>Example data\<close>

text \<open>
  A version 1 schema that declares the tag \<open>engine_count\<close> as an integer, and a
  registry that holds one tag the schema does not declare and gives \<open>engine_count\<close>
  another type than the schema does.
\<close>

definition example_v1_properties :: "(string \<times> json) list" where
  "example_v1_properties =
     [(''tags'',
         JObj [(''type'', JStr ''object''),
               (''properties'', JObj [(''engine_count'', JObj [(''type'', JStr ''integer'')])]),
               (''additionalProperties'', tagValue_ref)])]"

definition example_v1_fields :: "(string \<times> json) list" where
  "example_v1_fields =
     [(''title'', JStr ''PlaneQuery Aircraft Community Submission (v1)''),
      (''type'', JStr ''object''),
      (''properties'', JObj example_v1_properties)]"

definition example_schema_v1 :: json where
  "example_schema_v1 = JObj example_v1_fields"

definition example_registry :: tag_registry where
  "example_registry = [(''paint_color'', ''string''), (''engine_count'', ''string'')]"

definition example_store :: schema_store where
  "example_store = [(1, example_schema_v1)]"

text \<open>The document generated from them, for a version number.\<close>

definition example_generated :: "int \<Rightarrow> json" where
  "example_generated new_version =
     JObj [(''title'',
              JStr (''PlaneQuery Aircraft Community Submission (v'' @ str_int new_version @ '')'')),
           (''type'', JStr ''object''),
           (''properties'',
              JObj [(''tags'',
                 JObj [(''type'', JStr ''object''),
                       (''description'',
                          JStr ''Community-defined tags. New tags can be added, but must use consistent types.''),
                       (''propertyNames'',
                          JObj [(''type'', JStr ''string''),
                                (''pattern'', JStr ''^[a-z][a-z0-9_]{0,63}$'')]),
                       (''properties'',
                          JObj [(''engine_count'', JObj [(''type'', JStr ''string'')]),
                                (''paint_color'', JObj [(''type'', JStr ''string'')])]),
                       (''additionalProperties'', tagValue_ref)])])]"

text \<open>
  A runtime for the examples: a validator that reports one error for each of three
  instances, a parser that reads one text, and the schema file. The second runtime has
  neither the package \<open>jsonschema\<close> nor the schema file.
\<close>

definition example_error :: validation_error where
  "example_error = \<lparr>path = [Key ''(root)''], message = ''5 is not of type string''\<rparr>"

definition example_tag_error :: validation_error where
  "example_tag_error = \<lparr>path = [Key ''tags'', Key ''engine_count''], message = ''two is not of type integer''\<rparr>"

definition example_root_error :: validation_error where
  "example_root_error = \<lparr>path = [], message = ''tags is a required property''\<rparr>"

definition example_validator :: "json \<Rightarrow> json \<Rightarrow> validation_error list" where
  "example_validator schema instance =
     (if instance = JObj [(''(root)'', JInt 5)] then [example_error]
      else if instance = JObj [(''tags'', JObj [(''engine_count'', JStr ''two'')])] then [example_tag_error]
      else if instance = JObj [] then [example_root_error]
      else [])"

definition example_json_loads :: "string \<Rightarrow> loads_outcome" where
  "example_json_loads text =
     (if text = ''{}'' then Loaded (JObj [])
      else if set text \<subseteq> set ''123456789'' \<and> int_max_str_digits < length text
      then Raises ValueError
      else JSONDecodeError ''Expecting value: line 1 column 1 (char 0)'')"

definition example_runtime :: runtime where
  "example_runtime = \<lparr>iter_errors = Some example_validator, json_loads = example_json_loads,
     schema_file = Some example_schema_v1\<rparr>"

definition example_broken_runtime :: runtime where
  "example_broken_runtime = \<lparr>iter_errors = None, json_loads = example_json_loads,
     schema_file = None\<rparr>"

definition example_batch :: json where
  "example_batch = JArr [JObj [], JObj [(''tags'', JObj [(''engine_count'', JStr ''two'')])]]"


text \<open>A heap with a base document at address 1, and the heap after a run on it.\<close>

definition example_heap :: heap where
  "example_heap =
     [PDict [(''type'', VStr ''object'')],
      PDict [(''title'', VStr ''PlaneQuery Aircraft Community Submission (v1)''),
             (''properties'', VRef 0)]]"

definition example_generated_heap :: heap where
  "example_generated_heap =
     example_heap @
     [PDict [(''type'', VStr ''object''), (''tags'', VRef 9)],
      PDict [(''title'', VStr ''PlaneQuery Aircraft Community Submission (v2)''),
             (''properties'', VRef 2)],
      PDict [(''type'', VStr ''string''), (''pattern'', VStr ''^[a-z][a-z0-9_]{0,63}$'')],
      PDict [(''type'', VStr ''string'')],
      PDict [(''type'', VStr ''string'')],
      PDict [(''engine_count'', VRef 5), (''paint_color'', VRef 6)],
      PDict [(''$ref'', VStr ''#/$defs/tagValue'')],
      PDict [(''type'', VStr ''object''),
             (''description'',
                VStr ''Community-defined tags. New tags can be added, but must use consistent types.''),
             (''propertyNames'', VRef 4), (''properties'', VRef 7),
             (''additionalProperties'', VRef 8)]]"

section \<open>Dictionaries and sorting\<close>

lemma dict_set_fresh: "k \<notin> set (map fst d) \<Longrightarrow> dict_set d k v = d @ [(k, v)]"
  unfolding dict_set_def by (induction d) auto

lemma map_of_dict_set: "map_of (dict_set d k v) = (map_of d)(k \<mapsto> v)"
  unfolding dict_set_def by (rule update_conv')

lemma foldl_dict_set_distinct:
  "distinct (map fst xs) \<Longrightarrow> set (map fst xs) \<inter> set (map fst acc) = {} \<Longrightarrow>
   foldl (\<lambda>d (k, t). dict_set d k (g t)) acc xs = acc @ map (\<lambda>(k, t). (k, g t)) xs"
proof (induction xs arbitrary: acc)
  case Nil
  then show ?case by simp
next
  case (Cons x xs)
  obtain k t where x: "x = (k, t)" by (cases x)
  from Cons.prems have fresh: "k \<notin> set (map fst acc)" by (auto simp: x)
  have "foldl (\<lambda>d (k, t). dict_set d k (g t)) (acc @ [(k, g t)]) xs =
        (acc @ [(k, g t)]) @ map (\<lambda>(k, t). (k, g t)) xs"
    using Cons.prems by (intro Cons.IH) (auto simp: x)
  then show ?case by (simp add: x dict_set_fresh [OF fresh])
qed

lemma sorted_map_fst:
  "sorted xs \<Longrightarrow> sorted (map fst (xs :: ('a::linorder \<times> 'b::linorder) list))"
  by (induction xs) (auto simp: less_eq_prod_def)

lemma sort_pairs_keys:
  assumes "distinct (map fst (r :: ('a::linorder \<times> 'b::linorder) list))"
  shows "map fst (sort r) = sort (map fst r)"
proof (rule sorted_distinct_set_unique)
  show "sorted (map fst (sort r))" by (simp add: sorted_map_fst)
  have "distinct r" using assms by (simp add: distinct_map)
  moreover have "inj_on fst (set r)" using assms by (simp add: distinct_map)
  ultimately show "distinct (map fst (sort r))" by (simp add: distinct_map)
  show "sorted (sort (map fst r))" by simp
  show "distinct (sort (map fst r))" using assms by simp
  show "set (map fst (sort r)) = set (sort (map fst r))" by simp
qed

lemma sort_registry_unique:
  assumes "distinct (map fst r)" "distinct (map fst r')" "map_of r = map_of r'"
  shows "sort r = sort r'"
proof -
  have "distinct r" "distinct r'" using assms by (simp_all add: distinct_map)
  moreover have "set r = set r'" using assms by (metis map_of_inject_set)
  ultimately show ?thesis
    by (intro sorted_distinct_set_unique) auto
qed

section \<open>The schema differ\<close>

lemma new_tags_loop_dict:
  "new_tags_loop tags (JObj declared) =
     Inr (filter (\<lambda>tag. tag \<notin> set (map fst declared)) tags)"
  by (induction tags) auto

lemma example_existing_tags:
  "get_existing_tag_definitions example_schema_v1 =
     Inr (JObj [(''engine_count'', JObj [(''type'', JStr ''integer'')])])"
  by (simp add: get_existing_tag_definitions_def example_schema_v1_def example_v1_fields_def
      example_v1_properties_def py_get_def)

lemma check_for_new_tags_all_declared:
  assumes "get_existing_tag_definitions current_schema = Inr (JObj declared)"
    and "set (map fst tag_registry) \<subseteq> set (map fst declared)"
  shows "check_for_new_tags tag_registry current_schema = Inr []"
proof -
  have "filter (\<lambda>tag. tag \<notin> set (map fst declared)) (map fst tag_registry) = []"
    using assms(2) by (auto simp: filter_empty_conv)
  then show ?thesis using assms(1) by (simp add: check_for_new_tags_def new_tags_loop_dict)
qed

lemma example_new_tags:
  "check_for_new_tags example_registry example_schema_v1 = Inr [''paint_color'']"
  by (simp add: check_for_new_tags_def example_existing_tags example_registry_def)



section \<open>The schema generator\<close>

lemma build_tag_properties_sorted:
  assumes "distinct (map fst r)"
  shows "build_tag_properties r = map (\<lambda>(k, t). (k, type_name_to_json_schema t)) (sort r)"
proof -
  have "distinct (map fst (sort r))" using assms by (simp add: sort_pairs_keys)
  then show ?thesis
    unfolding build_tag_properties_def
    using foldl_dict_set_distinct [of "sort r" "[]" type_name_to_json_schema] by simp
qed

lemma schema_title_Inr:
  "schema_title v = Inr title \<longleftrightarrow>
     digits_of v \<le> int_max_str_digits
     \<and> title = ''PlaneQuery Aircraft Community Submission (v'' @ str_int v @ '')''"
  by (auto simp: schema_title_def format_int_def)

lemma generate_new_schema_Inr:
  assumes "generate_new_schema base r v = Inr doc"
  obtains kvs props title where "base = JObj kvs" and "within_digit_limit base"
    and "schema_title v = Inr title"
    and "map_of (dict_set kvs ''title'' (JStr title)) ''properties'' = Some (JObj props)"
    and "doc = JObj (dict_set (dict_set kvs ''title'' (JStr title)) ''properties''
                 (JObj (dict_set props ''tags'' (tags_definition (build_tag_properties r)))))"
  using assms unfolding generate_new_schema_def json_round_trip_def
  by (auto simp: Let_def split: json.splits option.splits sum.splits if_splits)

lemma tags_of_generated:
  assumes "generate_new_schema base r v = Inr doc"
  shows "\<exists>fields props. doc = JObj fields
           \<and> map_of fields ''properties'' = Some (JObj props)
           \<and> map_of props ''tags'' = Some (tags_definition (build_tag_properties r))"
proof -
  from assms obtain kvs props title where
    "doc = JObj (dict_set (dict_set kvs ''title'' (JStr title)) ''properties''
                 (JObj (dict_set props ''tags'' (tags_definition (build_tag_properties r)))))"
    by (rule generate_new_schema_Inr)
  then show ?thesis by (simp add: map_of_dict_set)
qed

lemma existing_of_generated:
  assumes "generate_new_schema base r v = Inr doc"
  shows "get_existing_tag_definitions doc = Inr (JObj (build_tag_properties r))"
proof -
  from assms obtain kvs props title where
    "doc = JObj (dict_set (dict_set kvs ''title'' (JStr title)) ''properties''
                 (JObj (dict_set props ''tags'' (tags_definition (build_tag_properties r)))))"
    by (rule generate_new_schema_Inr)
  then show ?thesis
    by (simp add: get_existing_tag_definitions_def py_get_def map_of_dict_set tags_definition_def)
qed

lemma example_build:
  "build_tag_properties example_registry =
     [(''engine_count'', JObj [(''type'', JStr ''string'')]),
      (''paint_color'', JObj [(''type'', JStr ''string'')])]"
  by code_simp

lemma example_build_rev:
  "build_tag_properties (rev example_registry) =
     [(''engine_count'', JObj [(''type'', JStr ''string'')]),
      (''paint_color'', JObj [(''type'', JStr ''string'')])]"
  by code_simp

lemma example_round_trip: "json_round_trip example_schema_v1 = Inr example_schema_v1"
  by (simp add: json_round_trip_def example_schema_v1_def example_v1_fields_def
      example_v1_properties_def tagValue_ref_def)

lemma example_titles:
  "schema_title 2 = Inr ''PlaneQuery Aircraft Community Submission (v2)''"
  "schema_title 7 = Inr ''PlaneQuery Aircraft Community Submission (v7)''"
  by (simp_all add: schema_title_def format_int_def digits_of_def int_max_str_digits_def
      str_int_def str_nat.simps digit_char_def)

lemma example_generate_any:
  assumes "digits_of v \<le> int_max_str_digits"
  shows "generate_new_schema example_schema_v1 example_registry v = Inr (example_generated v)"
proof -
  have "schema_title v = Inr (''PlaneQuery Aircraft Community Submission (v'' @ str_int v @ '')'')"
    using assms by (simp add: schema_title_Inr)
  then show ?thesis
    by (simp add: generate_new_schema_def example_round_trip)
       (simp add: example_schema_v1_def example_v1_fields_def
          example_v1_properties_def example_generated_def example_build dict_set_def
          tags_definition_def)
qed

lemma example_digits: "digits_of 2 \<le> int_max_str_digits" "digits_of 7 \<le> int_max_str_digits"
  by (simp_all add: digits_of_def int_max_str_digits_def str_nat.simps)

lemma example_generate:
  "generate_new_schema example_schema_v1 example_registry 2 = Inr (example_generated 2)"
  "generate_new_schema example_schema_v1 example_registry 7 = Inr (example_generated 7)"
  by (rule example_generate_any, rule example_digits)+

lemma example_generate_rev:
  "generate_new_schema example_schema_v1 (rev example_registry) 2 = Inr (example_generated 2)"
proof -
  have "schema_title 2 = Inr (''PlaneQuery Aircraft Community Submission (v'' @ str_int 2 @ '')'')"
    using example_digits(1) by (simp add: schema_title_Inr)
  then show ?thesis
    by (simp add: generate_new_schema_def example_round_trip)
       (simp add: example_schema_v1_def example_v1_fields_def
          example_v1_properties_def example_generated_def example_build_rev dict_set_def
          tags_definition_def)
qed

text \<open>
  C9. In the generated schema, \<open>properties.tags.properties\<close> has one entry per tag
  of the registry, the tag's type fragment, in ascending order of tag name. Any other
  registry with the same entries, whatever its insertion order, gives the same
  document.
\<close>

theorem generated_tag_properties_sorted:
  assumes "distinct (map fst tag_registry)"
    and "generate_new_schema base_schema tag_registry new_version = Inr doc"
  shows "\<exists>props. get_existing_tag_definitions doc = Inr (JObj props)
           \<and> props = map (\<lambda>(tag, ty). (tag, type_name_to_json_schema ty)) (sort tag_registry)
           \<and> map fst props = sort (map fst tag_registry)
           \<and> distinct (map fst props)
           \<and> (\<forall>other. distinct (map fst other) \<and> map_of other = map_of tag_registry
                 \<longrightarrow> generate_new_schema base_schema other new_version = Inr doc)"
proof -
  let ?props = "map (\<lambda>(tag, ty). (tag, type_name_to_json_schema ty)) (sort tag_registry)"
  have btp: "build_tag_properties tag_registry = ?props"
    using assms(1) by (rule build_tag_properties_sorted)
  have "get_existing_tag_definitions doc = Inr (JObj ?props)"
    using existing_of_generated [OF assms(2)] btp by simp
  moreover have keys: "map fst ?props = sort (map fst tag_registry)"
  proof -
    have "map fst ?props = map fst (sort tag_registry)"
      by (simp add: case_prod_unfold comp_def)
    then show ?thesis using assms(1) by (simp add: sort_pairs_keys)
  qed
  moreover have "distinct (map fst ?props)"
    using assms(1) by (simp only: keys distinct_sort)
  moreover have "generate_new_schema base_schema other new_version = Inr doc"
    if "distinct (map fst other) \<and> map_of other = map_of tag_registry" for other
  proof -
    have "sort other = sort tag_registry"
      using that assms(1) by (intro sort_registry_unique) auto
    then have same: "build_tag_properties other = build_tag_properties tag_registry"
      by (simp add: build_tag_properties_def)
    show ?thesis using assms(2) unfolding generate_new_schema_def same .
  qed
  ultimately show ?thesis by blast
qed

theorem generated_tag_properties_sorted_witness:
  "get_existing_tag_definitions (example_generated 2) =
     Inr (JObj [(''engine_count'', JObj [(''type'', JStr ''string'')]),
                (''paint_color'', JObj [(''type'', JStr ''string'')])])
   \<and> generate_new_schema example_schema_v1 (rev example_registry) 2 = Inr (example_generated 2)"
proof -
  have d: "distinct (map fst example_registry)" by (simp add: example_registry_def)
  from generated_tag_properties_sorted [OF d example_generate(1)]
  obtain props where p: "get_existing_tag_definitions (example_generated 2) = Inr (JObj props)"
    "props = map (\<lambda>(tag, ty). (tag, type_name_to_json_schema ty)) (sort example_registry)"
    "(\<forall>other. distinct (map fst other) \<and> map_of other = map_of example_registry
        \<longrightarrow> generate_new_schema example_schema_v1 other 2 = Inr (example_generated 2))"
    by blast
  have "props = [(''engine_count'', JObj [(''type'', JStr ''string'')]),
                 (''paint_color'', JObj [(''type'', JStr ''string'')])]"
    using build_tag_properties_sorted [OF d] example_build p(2) by simp
  moreover have "distinct (map fst (rev example_registry))
      \<and> map_of (rev example_registry) = map_of example_registry"
    by (auto simp: example_registry_def)
  ultimately show ?thesis using p(1) p(3) by blast
qed

section \<open>Creating a schema version\<close>

lemma fold_max_ge: "(v::int) \<le> fold max vs v \<and> (\<forall>x \<in> set vs. x \<le> fold max vs v)"
proof (induction vs arbitrary: v)
  case Nil
  then show ?case by simp
next
  case (Cons a vs)
  from Cons.IH [of "max a v"] show ?case by auto
qed

lemma latest_is_greatest:
  assumes "get_latest_schema_version store = Inr cur"
  shows "\<forall>v \<in> set (map fst store). v \<le> cur"
proof (cases "map fst store")
  case Nil
  then show ?thesis using assms by (simp add: get_latest_schema_version_def)
next
  case (Cons v vs)
  then have "cur = fold max vs v" using assms by (simp add: get_latest_schema_version_def)
  moreover have "set (map fst store) = insert v (set vs)"
    using Cons by (metis list.simps(15))
  ultimately show ?thesis using fold_max_ge [of v vs] by auto
qed

lemma map_of_write_schema:
  "map_of (write_schema store v doc) = (map_of store)(v \<mapsto> doc)"
  by (simp add: write_schema_def map_of_dict_set)

lemma example_latest: "get_latest_schema_version example_store = Inr 1"
  by (simp add: get_latest_schema_version_def example_store_def)

lemma example_load: "load_schema example_store 1 = Inr example_schema_v1"
  by (simp add: load_schema_def example_store_def)

lemma create_new_schema_version_Some:
  assumes "create_new_schema_version store r co = Inr ((Some nv, new_tags), store')"
  obtains cur where "get_latest_schema_version store = Inr cur" "nv = cur + 1"
  using assms unfolding create_new_schema_version_def
  by (auto simp: Let_def split: sum.splits if_splits)

lemma create_new_schema_version_store:
  assumes "create_new_schema_version store r co = Inr (res, store')"
  obtains "store' = store"
  | cur doc where "get_latest_schema_version store = Inr cur"
      "store' = write_schema store (cur + 1) doc"
  using assms unfolding create_new_schema_version_def
  by (auto simp: Let_def split: sum.splits if_splits)

lemma example_check_only:
  "create_new_schema_version example_store example_registry True =
     Inr ((Some 2, [''paint_color'']), example_store)"
  by (simp add: create_new_schema_version_def example_latest example_load example_new_tags)

lemma example_write:
  "write_schema example_store 2 d = [(1, example_schema_v1), (2, d)]"
  by (simp add: write_schema_def dict_set_def example_store_def)

lemma example_create:
  "create_new_schema_version example_store example_registry False =
     Inr ((Some 2, [''paint_color'']), [(1, example_schema_v1), (2, example_generated 2)])"
  by (simp add: create_new_schema_version_def example_latest example_load example_new_tags
      example_generate example_write)

text \<open>
  C10. When every tag of the registry is declared in the latest schema,
  \<open>create_new_schema_version\<close> returns \<open>(None, [])\<close> and leaves the schema directory
  as it was, in both modes and whatever types the registry holds: only the names are
  compared.
\<close>

theorem declared_tags_give_no_new_version:
  assumes "get_latest_schema_version store = Inr current_version"
    and "load_schema store current_version = Inr current_schema"
    and "get_existing_tag_definitions current_schema = Inr (JObj declared)"
    and "set (map fst tag_registry) \<subseteq> set (map fst declared)"
  shows "create_new_schema_version store tag_registry check_only = Inr ((None, []), store)"
  using assms(1,2) check_for_new_tags_all_declared [OF assms(3,4)]
  by (simp add: create_new_schema_version_def)

theorem declared_tags_give_no_new_version_witness:
  "create_new_schema_version example_store [(''engine_count'', ''string'')] False
     = Inr ((None, []), example_store)
   \<and> type_name_to_json_schema ''string'' \<noteq> JObj [(''type'', JStr ''integer'')]"
proof -
  have "create_new_schema_version example_store [(''engine_count'', ''string'')] False
     = Inr ((None, []), example_store)"
    by (rule declared_tags_give_no_new_version
          [OF example_latest example_load example_existing_tags]) simp
  moreover have "type_name_to_json_schema ''string'' \<noteq> JObj [(''type'', JStr ''integer'')]"
    by (simp add: type_name_to_json_schema_def type_map_def)
  ultimately show ?thesis by simp
qed

text \<open>
  C1, as stated, fails: the generator takes any version number. With version 1 the
  latest stored version, it returns a document for version 7.
\<close>

theorem generate_new_schema_unchecked_version:
  "get_latest_schema_version example_store = Inr 1
   \<and> load_schema example_store 1 = Inr example_schema_v1
   \<and> generate_new_schema example_schema_v1 example_registry 7 = Inr (example_generated 7)"
  using example_generate(2) example_latest example_load by simp

text \<open>
  C1, amended. \<open>generate_new_schema\<close> checks no version and knows no latest version.
  When it returns a document for a version number, the title of the document carries
  that number, and it returns a document for every other version number that the
  interpreter can write in decimal (at most 4300 digits) as well. When
  \<open>create_new_schema_version\<close> reports a version, it is the latest stored version plus
  one; in check mode the schema directory is as it was, and in write mode it holds,
  under that version, the document generated from the latest schema for that version.
\<close>

theorem generate_new_schema_any_version:
  "(generate_new_schema base_schema tag_registry new_version = Inr doc \<longrightarrow>
      (\<exists>fields. doc = JObj fields
         \<and> map_of fields ''title''
             = Some (JStr (''PlaneQuery Aircraft Community Submission (v''
                             @ str_int new_version @ '')'')))
      \<and> (digits_of other_version \<le> int_max_str_digits \<longrightarrow>
            (\<exists>other_doc.
                generate_new_schema base_schema tag_registry other_version = Inr other_doc)))
   \<and> (create_new_schema_version store tag_registry check_only
         = Inr ((Some created, new_tags), store') \<longrightarrow>
      (\<exists>current current_schema.
          get_latest_schema_version store = Inr current \<and> created = current + 1
        \<and> load_schema store current = Inr current_schema
        \<and> (if check_only then store' = store
            else (\<exists>new_schema.
                    generate_new_schema current_schema tag_registry (current + 1) = Inr new_schema
                  \<and> store' = write_schema store (current + 1) new_schema))))"
proof (intro conjI impI)
  assume g: "generate_new_schema base_schema tag_registry new_version = Inr doc"
  from g obtain kvs props title where base: "base_schema = JObj kvs"
    and limit: "within_digit_limit base_schema"
    and title: "schema_title new_version = Inr title"
    and props: "map_of (dict_set kvs ''title'' (JStr title)) ''properties'' = Some (JObj props)"
    and doc: "doc = JObj (dict_set (dict_set kvs ''title'' (JStr title)) ''properties''
                 (JObj (dict_set props ''tags''
                    (tags_definition (build_tag_properties tag_registry)))))"
    by (rule generate_new_schema_Inr)
  from title have t: "title = ''PlaneQuery Aircraft Community Submission (v''
                             @ str_int new_version @ '')''"
    by (simp add: schema_title_Inr)
  show "\<exists>fields. doc = JObj fields
         \<and> map_of fields ''title''
             = Some (JStr (''PlaneQuery Aircraft Community Submission (v''
                             @ str_int new_version @ '')''))"
    unfolding doc t by (simp add: map_of_dict_set)
  from props have p: "map_of kvs ''properties'' = Some (JObj props)"
    by (simp add: map_of_dict_set)
  show "\<exists>other_doc. generate_new_schema base_schema tag_registry other_version = Inr other_doc"
    if "digits_of other_version \<le> int_max_str_digits"
  proof -
    from that have "schema_title other_version
        = Inr (''PlaneQuery Aircraft Community Submission (v'' @ str_int other_version @ '')'')"
      by (simp add: schema_title_Inr)
    with limit p show ?thesis
      by (simp add: generate_new_schema_def json_round_trip_def base Let_def map_of_dict_set)
  qed
next
  assume "create_new_schema_version store tag_registry check_only
            = Inr ((Some created, new_tags), store')"
  then show "\<exists>current current_schema.
          get_latest_schema_version store = Inr current \<and> created = current + 1
        \<and> load_schema store current = Inr current_schema
        \<and> (if check_only then store' = store
            else (\<exists>new_schema.
                    generate_new_schema current_schema tag_registry (current + 1) = Inr new_schema
                  \<and> store' = write_schema store (current + 1) new_schema))"
    unfolding create_new_schema_version_def
    by (auto simp: Let_def split: sum.splits if_splits)
qed

theorem generate_new_schema_any_version_witness:
  "(\<exists>fields. example_generated 2 = JObj fields
       \<and> map_of fields ''title'' = Some (JStr ''PlaneQuery Aircraft Community Submission (v2)''))
   \<and> (\<exists>other_doc. generate_new_schema example_schema_v1 example_registry 7 = Inr other_doc)
   \<and> create_new_schema_version example_store example_registry False
        = Inr ((Some 2, [''paint_color'']), [(1, example_schema_v1), (2, example_generated 2)])
   \<and> (\<exists>new_schema. generate_new_schema example_schema_v1 example_registry 2 = Inr new_schema
          \<and> [(1, example_schema_v1), (2, example_generated 2)]
              = write_schema example_store 2 new_schema)"
proof -
  note t = generate_new_schema_any_version [where base_schema = example_schema_v1
      and tag_registry = example_registry and new_version = 2 and doc = "example_generated 2"
      and other_version = 7 and store = example_store and check_only = False and created = 2
      and new_tags = "[''paint_color'']"
      and store' = "[(1, example_schema_v1), (2, example_generated 2)]"]
  have s: "str_int 2 = ''2''" by (simp add: str_int_def str_nat.simps digit_char_def)
  from t example_generate(1) example_digits(2) example_create example_latest example_load
  show ?thesis by (simp add: s)
qed

text \<open>
  C2, as stated, fails: the write neither looks for an existing file nor fails. After
  version 2 is written, writing another document as version 2 replaces the first.
\<close>

theorem write_schema_overwrites:
  "write_schema (write_schema example_store 2 (example_generated 2)) 2 example_schema_v1
     = [(1, example_schema_v1), (2, example_schema_v1)]
   \<and> write_schema example_store 2 (example_generated 2)
     = [(1, example_schema_v1), (2, example_generated 2)]
   \<and> example_generated 2 \<noteq> example_schema_v1"
  by (simp add: write_schema_def dict_set_def example_store_def example_generated_def
      example_schema_v1_def example_v1_fields_def example_v1_properties_def)

text \<open>
  C2, amended. Writing a version stores the document under that version, replacing a
  document that was there, and leaves every other version as it was.
  \<open>create_new_schema_version\<close> writes at the latest version plus one only, so every
  document stored before a run of it is unchanged after.
\<close>

theorem write_schema_keeps_other_versions:
  "map_of (write_schema store version document) version = Some document
   \<and> (\<forall>other. other \<noteq> version \<longrightarrow>
         map_of (write_schema store version document) other = map_of store other)
   \<and> (create_new_schema_version store' tag_registry check_only = Inr (result, store'') \<longrightarrow>
         (\<forall>v \<in> set (map fst store'). map_of store'' v = map_of store' v))"
proof (intro conjI impI allI ballI)
  show "map_of (write_schema store version document) version = Some document"
    by (simp add: map_of_write_schema)
next
  fix other assume "other \<noteq> version"
  then show "map_of (write_schema store version document) other = map_of store other"
    by (simp add: map_of_write_schema)
next
  fix v
  assume c: "create_new_schema_version store' tag_registry check_only = Inr (result, store'')"
    and v: "v \<in> set (map fst store')"
  from c show "map_of store'' v = map_of store' v"
  proof (rule create_new_schema_version_store)
    assume "store'' = store'"
    then show ?thesis by simp
  next
    fix cur doc
    assume l: "get_latest_schema_version store' = Inr cur"
      and w: "store'' = write_schema store' (cur + 1) doc"
    from latest_is_greatest [OF l] v have "v \<le> cur" by blast
    then have "v \<noteq> cur + 1" by simp
    then show ?thesis by (simp add: w map_of_write_schema)
  qed
qed

theorem write_schema_keeps_other_versions_witness:
  "map_of (write_schema example_store 2 (example_generated 2)) 2 = Some (example_generated 2)
   \<and> map_of (write_schema example_store 2 (example_generated 2)) 1 = map_of example_store 1
   \<and> create_new_schema_version example_store example_registry False =
       Inr ((Some 2, [''paint_color'']), [(1, example_schema_v1), (2, example_generated 2)])
   \<and> map_of [(1::int, example_schema_v1), (2, example_generated 2)] 1 = map_of example_store 1"
proof -
  note t = write_schema_keeps_other_versions [where store = example_store and version = 2
      and document = "example_generated 2" and store' = example_store
      and tag_registry = example_registry and check_only = False
      and result = "(Some 2, [''paint_color''])"
      and store'' = "[(1, example_schema_v1), (2, example_generated 2)]"]
  have "(1::int) \<in> set (map fst example_store)" by (simp add: example_store_def)
  with t example_create show ?thesis by auto
qed

section \<open>Validating submissions\<close>

lemma digit_char_not_paren: "n < 10 \<Longrightarrow> digit_char n \<noteq> CHR ''(''"
proof -
  assume "n < 10"
  then have "digit_char n \<in> set ''0123456789''"
    unfolding digit_char_def by (intro nth_mem) simp
  then show ?thesis by auto
qed

lemma str_nat_hd: "\<exists>c cs. str_nat n = c # cs \<and> c \<noteq> CHR ''(''"
proof (induction n rule: str_nat.induct)
  case (1 n)
  show ?case
  proof (cases "n < 10")
    case True
    then show ?thesis using digit_char_not_paren [of n] by (subst str_nat.simps) simp
  next
    case False
    with 1 obtain c cs where "str_nat (n div 10) = c # cs" "c \<noteq> CHR ''(''" by blast
    with False show ?thesis by (subst str_nat.simps) simp
  qed
qed

lemma str_int_not_root: "str_int i \<noteq> ''(root)''"
proof -
  obtain c cs where "str_nat (nat i) = c # cs" "c \<noteq> CHR ''(''" using str_nat_hd by blast
  moreover obtain c' cs' where "str_nat (nat (- i)) = c' # cs'" using str_nat_hd by blast
  ultimately show ?thesis by (auto simp: str_int_def)
qed

lemma join_dot: "CHR ''.'' \<in> set (join ''.'' (p # q # ps))"
  by simp

lemma join_root:
  assumes "ps \<noteq> []" "join ''.'' (map str_path_element ps) = ''(root)''"
  shows "ps = [Key ''(root)'']"
proof (cases ps)
  case Nil
  with assms show ?thesis by simp
next
  case (Cons p qs)
  show ?thesis
  proof (cases qs)
    case Nil
    with Cons assms(2) have "str_path_element p = ''(root)''" by simp
    then have "p = Key ''(root)''" using str_int_not_root by (cases p) auto
    with Cons Nil show ?thesis by simp
  next
    case (Cons q rs)
    with \<open>ps = p # qs\<close> have "CHR ''.'' \<in> set (join ''.'' (map str_path_element ps))"
      by simp
    with assms(2) show ?thesis by simp
  qed
qed

lemma set_enumerate_nth: "(i, x) \<in> set (enumerate 0 xs) \<Longrightarrow> i < length xs \<and> x = xs ! i"
  by (auto simp: in_set_enumerate_eq)

lemma in_set_concat_map:
  assumes "e \<in> set (concat (map f xs))"
  obtains x where "x \<in> set xs" "e \<in> set (f x)"
  using assms by auto

lemma in_set_mapE:
  assumes "e \<in> set (map f xs)"
  obtains x where "x \<in> set xs" "e = f x"
  using assms by auto

lemma format_error_shape:
  "format_error (index_prefix i n) err =
     (if n > 1 then ''['' @ str_nat i @ ''] '' else [])
     @ (if path err = [] then ''(root)'' else join ''.'' (map str_path_element (path err)))
     @ '': '' @ message err"
  by (simp add: format_error_def index_prefix_def error_path_def)

lemma validate_submission_Inr:
  assumes "validate_submission rt data schema = Inr errors"
  obtains validator schema' where "iter_errors rt = Some validator"
    and "(case schema of None \<Rightarrow> load_schema_file rt | Some given \<Rightarrow> Inr given) = Inr schema'"
    and "errors = concat (map (\<lambda>(i, submission).
                map (format_error
                       (index_prefix i (length (case data of JArr items \<Rightarrow> items | _ \<Rightarrow> [data]))))
                  (validator schema' submission))
              (enumerate 0 (case data of JArr items \<Rightarrow> items | _ \<Rightarrow> [data])))"
  using assms unfolding validate_submission_def
  by (auto simp: Let_def split: option.splits sum.splits)

lemma example_batch_errors:
  "validate_submission example_runtime example_batch None
     = Inr [''[0] (root): tags is a required property'',
            ''[1] tags.engine_count: two is not of type integer'']"
  by (simp add: validate_submission_def example_runtime_def load_schema_file_def example_batch_def
      example_validator_def example_tag_error_def example_root_error_def format_error_def
      index_prefix_def error_path_def str_nat.simps digit_char_def enumerate_eq_zip upt_rec)

text \<open>
  C3, as stated, fails in its last part: the path part is \<open>(root)\<close> also for an error
  whose path is the one key \<open>(root)\<close>, which is not empty.
\<close>

theorem error_path_root_counterexample:
  "validate_submission example_runtime (JObj [(''(root)'', JInt 5)]) None
     = Inr [''(root): 5 is not of type string'']
   \<and> example_validator example_schema_v1 (JObj [(''(root)'', JInt 5)]) = [example_error]
   \<and> path example_error \<noteq> []
   \<and> error_path example_error = ''(root)''"
  by (simp add: validate_submission_def example_runtime_def load_schema_file_def
      example_validator_def example_error_def format_error_def index_prefix_def error_path_def)

text \<open>
  C3, amended. Every error string that \<open>validate_submission\<close> returns comes from one
  error of the validator on the submission of some index \<open>i\<close>, and reads: the prefix
  \<open>[i]\<close> and a space when more than one submission is validated and nothing otherwise
  (a value that is not a list counts as one submission), then \<open>(root)\<close> when the
  error's path is empty and the path's elements joined by dots otherwise, then a colon,
  a space and the error's message. The joined path of a path that is not empty reads
  \<open>(root)\<close> for the one-element path of the key \<open>(root)\<close> only.
\<close>

theorem validate_submission_error_format:
  assumes "validate_submission rt data schema = Inr errors"
    and "submissions = (case data of JArr items \<Rightarrow> items | _ \<Rightarrow> [data])"
  shows "\<exists>validator schema'. iter_errors rt = Some validator
     \<and> (case schema of None \<Rightarrow> load_schema_file rt | Some given \<Rightarrow> Inr given) = Inr schema'
     \<and> (\<forall>e \<in> set errors. \<exists>i err.
           i < length submissions \<and> err \<in> set (validator schema' (submissions ! i))
           \<and> e = (if length submissions > 1 then ''['' @ str_nat i @ ''] '' else [])
                 @ (if path err = [] then ''(root)''
                    else join ''.'' (map str_path_element (path err)))
                 @ '': '' @ message err
           \<and> (path err \<noteq> [] \<and> join ''.'' (map str_path_element (path err)) = ''(root)''
                \<longrightarrow> path err = [Key ''(root)'']))"
proof -
  from assms(1) obtain validator schema' where
    v: "iter_errors rt = Some validator"
    and s: "(case schema of None \<Rightarrow> load_schema_file rt | Some given \<Rightarrow> Inr given) = Inr schema'"
    and e: "errors = concat (map (\<lambda>(i, submission).
                map (format_error (index_prefix i (length submissions)))
                  (validator schema' submission))
              (enumerate 0 submissions))"
    unfolding assms(2) by (rule validate_submission_Inr)
  have "\<forall>e \<in> set errors. \<exists>i err.
           i < length submissions \<and> err \<in> set (validator schema' (submissions ! i))
           \<and> e = (if length submissions > 1 then ''['' @ str_nat i @ ''] '' else [])
                 @ (if path err = [] then ''(root)''
                    else join ''.'' (map str_path_element (path err)))
                 @ '': '' @ message err
           \<and> (path err \<noteq> [] \<and> join ''.'' (map str_path_element (path err)) = ''(root)''
                \<longrightarrow> path err = [Key ''(root)''])"
  proof
    fix e assume "e \<in> set errors"
    then obtain p where p: "p \<in> set (enumerate 0 submissions)"
      and ep: "e \<in> set ((\<lambda>(i, submission).
                map (format_error (index_prefix i (length submissions)))
                  (validator schema' submission)) p)"
      unfolding e by (rule in_set_concat_map)
    obtain i submission where pi: "p = (i, submission)" by (cases p)
    from p pi have m: "(i, submission) \<in> set (enumerate 0 submissions)" by simp
    from ep have "e \<in> set (map (format_error (index_prefix i (length submissions)))
                  (validator schema' submission))"
      unfolding pi prod.case .
    then obtain err where r: "err \<in> set (validator schema' submission)"
      and f: "e = format_error (index_prefix i (length submissions)) err"
      by (rule in_set_mapE)
    from set_enumerate_nth [OF m]
    have i: "i < length submissions" and n: "submission = submissions ! i"
      by simp_all
    have j: "path err \<noteq> [] \<and> join ''.'' (map str_path_element (path err)) = ''(root)''
                \<longrightarrow> path err = [Key ''(root)'']"
      by (rule impI) (rule join_root, simp_all)
    show "\<exists>i err.
           i < length submissions \<and> err \<in> set (validator schema' (submissions ! i))
           \<and> e = (if length submissions > 1 then ''['' @ str_nat i @ ''] '' else [])
                 @ (if path err = [] then ''(root)''
                    else join ''.'' (map str_path_element (path err)))
                 @ '': '' @ message err
           \<and> (path err \<noteq> [] \<and> join ''.'' (map str_path_element (path err)) = ''(root)''
                \<longrightarrow> path err = [Key ''(root)''])"
    proof (intro exI conjI)
      show "i < length submissions" by (rule i)
      show "err \<in> set (validator schema' (submissions ! i))" using r n by simp
      show "e = (if length submissions > 1 then ''['' @ str_nat i @ ''] '' else [])
                 @ (if path err = [] then ''(root)''
                    else join ''.'' (map str_path_element (path err)))
                 @ '': '' @ message err"
        unfolding f by (rule format_error_shape)
      show "path err \<noteq> [] \<and> join ''.'' (map str_path_element (path err)) = ''(root)''
                \<longrightarrow> path err = [Key ''(root)'']" by (rule j)
    qed
  qed
  with v s show ?thesis by (intro exI conjI)
qed

theorem validate_submission_error_format_witness:
  "validate_submission example_runtime example_batch None
     = Inr [''[0] (root): tags is a required property'',
            ''[1] tags.engine_count: two is not of type integer'']
   \<and> (\<exists>validator. iter_errors example_runtime = Some validator)"
  using example_batch_errors validate_submission_error_format [OF example_batch_errors refl]
  by blast

lemma parse_and_validate_outcomes:
  "json_loads rt json_str = JSONDecodeError parse_message \<Longrightarrow>
     parse_and_validate rt json_str schema = Inr (None, [''Invalid JSON: '' @ parse_message])"
  "json_loads rt json_str = Loaded data \<Longrightarrow>
     parse_and_validate rt json_str schema =
       (case validate_submission rt data schema of
          Inl err \<Rightarrow> Inl err
        | Inr errors \<Rightarrow> Inr (Some data, errors))"
  "json_loads rt json_str = Raises err \<Longrightarrow> parse_and_validate rt json_str schema = Inl err"
  by (simp_all add: parse_and_validate_def)

lemma example_long_integer:
  "json_loads example_runtime (replicate 5000 (CHR ''1'')) = Raises ValueError"
proof -
  have "length (replicate 5000 (CHR ''1'')) \<noteq> length ''{}''" by simp
  then have "replicate 5000 (CHR ''1'') \<noteq> ''{}''" by metis
  then show ?thesis
    by (simp add: example_runtime_def example_json_loads_def int_max_str_digits_def)
qed

text \<open>
  C8. \<open>parse_and_validate\<close> returns \<open>None\<close> with the parse message, or the data with
  the validator's errors, where \<open>json.loads\<close> returns or raises \<open>JSONDecodeError\<close>, the
  one exception that it catches. For the text of 5000 digits \<open>1\<close> the parse fails with
  \<open>ValueError\<close>, and \<open>parse_and_validate\<close> raises it: it returns neither \<open>None\<close>
  nor a message.
\<close>

theorem parse_and_validate_uncaught:
  "json_loads example_runtime (replicate 5000 (CHR ''1'')) = Raises ValueError
   \<and> parse_and_validate example_runtime (replicate 5000 (CHR ''1'')) None = Inl ValueError"
  using example_long_integer parse_and_validate_outcomes(3) [OF example_long_integer]
  by simp

section \<open>The tag name pattern\<close>

lemma bol_search_later: "0 < pos \<Longrightarrow> re_search_from (Bol # as) s pos = None"
  by (induction s arbitrary: pos) auto

lemma bol_search: "re_search (Bol # as) s = re_match (Bol # as) s 0 (0, 0)"
  by (cases s) (auto simp: re_search_def bol_search_later split: option.splits)

lemma rep_eol:
  "re_match [Rep T n, Eol] s pos g \<noteq> None \<longleftrightarrow>
     (\<exists>k \<le> n. k \<le> length s \<and> list_all (in_class T) (take k s) \<and> at_end (drop k s))"
proof (induction n arbitrary: s pos)
  case 0
  then show ?case by simp
next
  case (Suc n)
  show ?case
  proof (cases s)
    case Nil
    then show ?thesis by (simp add: at_end_def)
  next
    case (Cons x xs)
    have split: "(\<exists>k \<le> Suc n. k \<le> length (x # xs) \<and> list_all (in_class T) (take k (x # xs))
                    \<and> at_end (drop k (x # xs)))
        \<longleftrightarrow> at_end (x # xs) \<or> (in_class T x \<and>
              (\<exists>k \<le> n. k \<le> length xs \<and> list_all (in_class T) (take k xs) \<and> at_end (drop k xs)))"
      (is "?L \<longleftrightarrow> ?R")
    proof
      assume ?L
      then obtain k where k: "k \<le> Suc n" "k \<le> length (x # xs)"
        "list_all (in_class T) (take k (x # xs))" "at_end (drop k (x # xs))" by blast
      show ?R
      proof (cases k)
        case 0
        with k show ?thesis by simp
      next
        case (Suc k')
        with k have "in_class T x" "k' \<le> n" "k' \<le> length xs"
          "list_all (in_class T) (take k' xs)" "at_end (drop k' xs)" by simp_all
        then show ?thesis by blast
      qed
    next
      assume ?R
      then show ?L
      proof
        assume "at_end (x # xs)"
        then show ?L by (intro exI [of _ 0]) simp
      next
        assume "in_class T x \<and>
              (\<exists>k \<le> n. k \<le> length xs \<and> list_all (in_class T) (take k xs) \<and> at_end (drop k xs))"
        then obtain k where "in_class T x" "k \<le> n" "k \<le> length xs"
          "list_all (in_class T) (take k xs)" "at_end (drop k xs)" by blast
        then show ?L by (intro exI [of _ "Suc k"]) simp
      qed
    qed
    have "re_match [Rep T (Suc n), Eol] (x # xs) pos g \<noteq> None \<longleftrightarrow>
          at_end (x # xs) \<or> (in_class T x \<and> re_match [Rep T n, Eol] xs (Suc pos) g \<noteq> None)"
      by (auto split: option.splits)
    then show ?thesis unfolding Cons split Suc.IH by simp
  qed
qed

lemma tag_name_accepted_iff:
  "tag_name_accepted name \<longleftrightarrow>
     (\<exists>c rest k. name = c # rest \<and> in_class [Rng CHR ''a'' CHR ''z''] c \<and> k \<le> 63
        \<and> k \<le> length rest
        \<and> list_all (in_class [Rng CHR ''a'' CHR ''z'', Rng CHR ''0'' CHR ''9'', Ch CHR ''_'']) (take k rest)
        \<and> at_end (drop k rest))"
proof (cases name)
  case Nil
  then show ?thesis by (simp add: tag_name_accepted_def bol_search tag_name_pattern_def)
next
  case (Cons c rest)
  have "tag_name_accepted name \<longleftrightarrow> in_class [Rng CHR ''a'' CHR ''z''] c \<and>
      re_match [Rep [Rng CHR ''a'' CHR ''z'', Rng CHR ''0'' CHR ''9'', Ch CHR ''_''] 63, Eol] rest (Suc 0) (0, 0) \<noteq> None"
    by (simp add: tag_name_accepted_def bol_search tag_name_pattern_def Cons)
  then show ?thesis unfolding rep_eol using Cons by auto
qed

lemma at_end_drop:
  assumes "k \<le> length rest"
  shows "at_end (drop k rest) \<longleftrightarrow> k = length rest \<or> rest = take k rest @ newline"
proof -
  have "rest = take k rest @ drop k rest" by simp
  then have "drop k rest = newline \<longleftrightarrow> rest = take k rest @ newline"
    by (metis append_eq_conv_conj)
  moreover have "drop k rest = [] \<longleftrightarrow> k = length rest" using assms by auto
  ultimately show ?thesis by (simp add: at_end_def newline_def)
qed

text \<open>
  C7, as stated, fails: the name \<open>_\<close> has one character, an underscore, and the pattern
  does not accept it, since the pattern's first character is a lowercase letter.
\<close>

theorem tag_name_pattern_rejects_underscore:
  "1 \<le> length ''_'' \<and> length ''_'' \<le> 64
   \<and> list_all (\<lambda>x. (CHR ''a'' \<le> x \<and> x \<le> CHR ''z'')
                  \<or> (CHR ''0'' \<le> x \<and> x \<le> CHR ''9'') \<or> x = CHR ''_'') ''_''
   \<and> \<not> tag_name_accepted ''_''"
  by (simp add: tag_name_accepted_def re_search_def tag_name_pattern_def in_class_def)

text \<open>
  C7, amended. In the generated schema, \<open>properties.tags.propertyNames\<close> holds the
  pattern \<^verbatim>\<open>^[a-z][a-z0-9_]{0,63}$\<close> and \<open>properties.tags.additionalProperties\<close> is the
  reference to \<^verbatim>\<open>#/$defs/tagValue\<close>. The pattern accepts the names that begin with a
  lowercase letter, followed by at most 63 lowercase letters, digits and underscores,
  and those names followed by one newline, which \<open>$\<close> lets pass; it accepts no other.
\<close>

theorem generated_tag_name_constraints:
  "(generate_new_schema base_schema tag_registry new_version = Inr doc \<longrightarrow>
      (\<exists>fields props tags.
          doc = JObj fields \<and> map_of fields ''properties'' = Some (JObj props)
        \<and> map_of props ''tags'' = Some (JObj tags)
        \<and> map_of tags ''propertyNames''
            = Some (JObj [(''type'', JStr ''string''), (''pattern'', JStr ''^[a-z][a-z0-9_]{0,63}$'')])
        \<and> map_of tags ''additionalProperties'' = Some (JObj [(''$ref'', JStr ''#/$defs/tagValue'')])))
   \<and> (tag_name_accepted name \<longleftrightarrow>
        (\<exists>c rest. (name = c # rest \<or> name = c # rest @ newline)
           \<and> CHR ''a'' \<le> c \<and> c \<le> CHR ''z'' \<and> length rest \<le> 63
           \<and> (\<forall>x \<in> set rest. (CHR ''a'' \<le> x \<and> x \<le> CHR ''z'')
                  \<or> (CHR ''0'' \<le> x \<and> x \<le> CHR ''9'') \<or> x = CHR ''_'')))"
proof (intro conjI impI)
  assume "generate_new_schema base_schema tag_registry new_version = Inr doc"
  from tags_of_generated [OF this] obtain fields props where
    "doc = JObj fields" "map_of fields ''properties'' = Some (JObj props)"
    "map_of props ''tags'' = Some (tags_definition (build_tag_properties tag_registry))"
    by blast
  then show "\<exists>fields props tags.
          doc = JObj fields \<and> map_of fields ''properties'' = Some (JObj props)
        \<and> map_of props ''tags'' = Some (JObj tags)
        \<and> map_of tags ''propertyNames''
            = Some (JObj [(''type'', JStr ''string''), (''pattern'', JStr ''^[a-z][a-z0-9_]{0,63}$'')])
        \<and> map_of tags ''additionalProperties'' = Some (JObj [(''$ref'', JStr ''#/$defs/tagValue'')])"
    by (simp add: tags_definition_def tagValue_ref_def)
next
  let ?tail = "\<lambda>x. (CHR ''a'' \<le> x \<and> x \<le> CHR ''z'')
                  \<or> (CHR ''0'' \<le> x \<and> x \<le> CHR ''9'') \<or> x = CHR ''_''"
  have tail: "in_class [Rng CHR ''a'' CHR ''z'', Rng CHR ''0'' CHR ''9'', Ch CHR ''_''] = ?tail"
    by (rule ext) (simp add: in_class_def)
  have first: "in_class [Rng CHR ''a'' CHR ''z''] c = (CHR ''a'' \<le> c \<and> c \<le> CHR ''z'')" for c
    by (simp add: in_class_def)
  show "tag_name_accepted name \<longleftrightarrow>
        (\<exists>c rest. (name = c # rest \<or> name = c # rest @ newline)
           \<and> CHR ''a'' \<le> c \<and> c \<le> CHR ''z'' \<and> length rest \<le> 63
           \<and> (\<forall>x \<in> set rest. ?tail x))" (is "?L \<longleftrightarrow> ?R")
  proof
    assume ?L
    then obtain c rest k where n: "name = c # rest" and c: "CHR ''a'' \<le> c \<and> c \<le> CHR ''z''"
      and k: "k \<le> 63" "k \<le> length rest" and a: "list_all ?tail (take k rest)"
      and e: "at_end (drop k rest)"
      unfolding tag_name_accepted_iff tail first by blast
    from e k(2) have "k = length rest \<or> rest = take k rest @ newline" by (simp add: at_end_drop)
    then show ?R
    proof
      assume "k = length rest"
      with n c k a show ?R by (intro exI [of _ c] exI [of _ rest]) (simp add: list_all_iff)
    next
      assume r: "rest = take k rest @ newline"
      have "name = c # take k rest @ newline" using n r by simp
      moreover have "length (take k rest) \<le> 63" using k by simp
      ultimately show ?R using c a
        by (intro exI [of _ c] exI [of _ "take k rest"]) (simp add: list_all_iff)
    qed
  next
    assume ?R
    then obtain c rest where n: "name = c # rest \<or> name = c # rest @ newline"
      and c: "CHR ''a'' \<le> c \<and> c \<le> CHR ''z''" and l: "length rest \<le> 63"
      and a: "\<forall>x \<in> set rest. ?tail x" by blast
    from n show ?L
    proof
      assume "name = c # rest"
      with c l a show ?L unfolding tag_name_accepted_iff tail first
        by (intro exI [of _ c] exI [of _ rest] exI [of _ "length rest"])
           (simp add: list_all_iff at_end_def)
    next
      assume "name = c # rest @ newline"
      with c l a show ?L unfolding tag_name_accepted_iff tail first
        by (intro exI [of _ c] exI [of _ "rest @ newline"] exI [of _ "length rest"])
           (simp add: list_all_iff at_end_def newline_def)
    qed
  qed
qed

theorem generated_tag_name_constraints_witness:
  "tag_name_accepted ''engine_count''
   \<and> (\<exists>fields props tags.
          example_generated 2 = JObj fields \<and> map_of fields ''properties'' = Some (JObj props)
        \<and> map_of props ''tags'' = Some (JObj tags)
        \<and> map_of tags ''propertyNames''
            = Some (JObj [(''type'', JStr ''string''), (''pattern'', JStr ''^[a-z][a-z0-9_]{0,63}$'')])
        \<and> map_of tags ''additionalProperties'' = Some (JObj [(''$ref'', JStr ''#/$defs/tagValue'')]))"
proof -
  note t = generated_tag_name_constraints [of example_schema_v1 example_registry 2
      "example_generated 2" "''engine_count''"]
  have "\<exists>c rest. (''engine_count'' = c # rest \<or> ''engine_count'' = c # rest @ newline)
           \<and> CHR ''a'' \<le> c \<and> c \<le> CHR ''z'' \<and> length rest \<le> 63
           \<and> (\<forall>x \<in> set rest. (CHR ''a'' \<le> x \<and> x \<le> CHR ''z'')
                  \<or> (CHR ''0'' \<le> x \<and> x \<le> CHR ''9'') \<or> x = CHR ''_'')"
    by (intro exI [of _ "CHR ''e''"] exI [of _ "''ngine_count''"]) simp
  with t example_generate(1) show ?thesis by blast
qed

section \<open>Extracting JSON from an issue body\<close>

text \<open>
  How the matcher runs through white space, a newline and a fence: a greedy \<open>\s*\<close>
  takes the whole run, and gives characters back until the piece after it matches; a
  lazy \<open>[\s\S]*?\<close> stops at the first offset where the pieces after it match.
\<close>

lemma in_class_ws [simp]: "in_class ws c = isspace c"
  by (simp add: in_class_def ws_def)

lemma in_class_anychar [simp]: "in_class anychar c"
  by (simp add: in_class_def anychar_def)

lemma isspace_newline [simp]: "isspace (CHR 0x0A)"
  by (simp add: isspace_def)

lemma not_isspace_backtick [simp]: "\<not> isspace (CHR ''`'')"
  by (simp add: isspace_def)










lemma is_prefix_append_same [simp]: "is_prefix l (l @ t)"
  by (simp add: is_prefix_iff)












text \<open>Backticks inside the content of the block do not end it.\<close>

lemma example_backticks_in_content:
  "extract_json_from_issue_body
     (''### Submission JSON'' @ newline @ ''```json'' @ newline @ ''{a: `x`}'' @ newline @ ''```'')
     = Some ''{a: `x`}''"
  "extract_json_from_issue_body
     (''### Submission JSON'' @ newline @ ''```'' @ newline @ ''x ``` y'' @ newline @ ''```'')
     = Some ''x ``` y''"
  by code_simp+




section \<open>The generated document shares no object with its base\<close>

text \<open>
  Allocation only appends to the heap, and what it appends refers to nothing older than
  the heap it started from.
\<close>

lemma new_since_mono: "new_since m v \<Longrightarrow> n \<le> m \<Longrightarrow> new_since n v"
  by (cases v) simp_all

lemma list_all_new_since_mono:
  "list_all (new_since m) vs \<Longrightarrow> n \<le> m \<Longrightarrow> list_all (new_since n) vs"
  by (auto simp: list_all_iff intro: new_since_mono)

lemma separate_from_append:
  assumes "separate_from n h" and "list_all (new_since n) (children obj)"
  shows "separate_from n (h @ [obj])"
  unfolding separate_from_def
proof (intro allI impI)
  fix a assume a: "n \<le> a \<and> a < length (h @ [obj])"
  show "list_all (new_since n) (children ((h @ [obj]) ! a))"
  proof (cases "a < length h")
    case True
    then have "(h @ [obj]) ! a = h ! a" by (simp add: nth_append)
    with assms(1) a True show ?thesis by (simp add: separate_from_def)
  next
    case False
    with a have "a = length h" by simp
    then have "(h @ [obj]) ! a = obj" by simp
    with assms(2) show ?thesis by simp
  qed
qed

lemma allocate_grows:
  "allocate j h = (v, h') \<Longrightarrow> n \<le> length h \<Longrightarrow> separate_from n h \<Longrightarrow>
     (\<exists>ext. h' = h @ ext) \<and> separate_from n h' \<and> new_since (length h) v"
  "allocate_items js h = (vs, h') \<Longrightarrow> n \<le> length h \<Longrightarrow> separate_from n h \<Longrightarrow>
     (\<exists>ext. h' = h @ ext) \<and> separate_from n h' \<and> list_all (new_since (length h)) vs"
  "allocate_entries kvs h = (es, h') \<Longrightarrow> n \<le> length h \<Longrightarrow> separate_from n h \<Longrightarrow>
     (\<exists>ext. h' = h @ ext) \<and> separate_from n h' \<and> list_all (new_since (length h)) (map snd es)"
proof (induction j h and js h and kvs h arbitrary: v h' and vs h' and es h'
       rule: allocate_allocate_items_allocate_entries.induct)
  case (1 h)
  then show ?case by auto
next
  case (2 b h)
  then show ?case by auto
next
  case (3 i h)
  then show ?case by auto
next
  case (4 f h)
  then show ?case by auto
next
  case (5 s h)
  then show ?case by auto
next
  case (6 xs h)
  obtain items h1 where it: "allocate_items xs h = (items, h1)" by (cases "allocate_items xs h")
  from "6.IH" [OF it "6.prems"(2,3)] obtain ext where ext: "h1 = h @ ext"
    and sep: "separate_from n h1" and items: "list_all (new_since (length h)) items" by blast
  from "6.prems"(1) it have v: "v = VRef (length h1)" and h': "h' = h1 @ [PList items]" by simp_all
  have "list_all (new_since n) items" using items "6.prems"(2) by (rule list_all_new_since_mono)
  then have "separate_from n h'" unfolding h' using sep by (intro separate_from_append) simp_all
  moreover have "h' = h @ (ext @ [PList items])" by (simp add: h' ext)
  moreover have "new_since (length h) v" by (simp add: v ext)
  ultimately show ?case by blast
next
  case (7 kvs h)
  obtain entries h1 where it: "allocate_entries kvs h = (entries, h1)"
    by (cases "allocate_entries kvs h")
  from "7.IH" [OF it "7.prems"(2,3)] obtain ext where ext: "h1 = h @ ext"
    and sep: "separate_from n h1" and items: "list_all (new_since (length h)) (map snd entries)"
    by blast
  from "7.prems"(1) it have v: "v = VRef (length h1)" and h': "h' = h1 @ [PDict entries]"
    by simp_all
  have "list_all (new_since n) (map snd entries)"
    using items "7.prems"(2) by (rule list_all_new_since_mono)
  then have "separate_from n h'" unfolding h' using sep by (intro separate_from_append) simp_all
  moreover have "h' = h @ (ext @ [PDict entries])" by (simp add: h' ext)
  moreover have "new_since (length h) v" by (simp add: v ext)
  ultimately show ?case by blast
next
  case (8 h)
  then show ?case by auto
next
  case (9 x xs h)
  obtain v1 h1 where a1: "allocate x h = (v1, h1)" by (cases "allocate x h")
  obtain vs2 h2 where a2: "allocate_items xs h1 = (vs2, h2)" by (cases "allocate_items xs h1")
  from "9.IH"(1) [OF a1 "9.prems"(2,3)] obtain ext1 where e1: "h1 = h @ ext1"
    and s1: "separate_from n h1" and n1: "new_since (length h) v1" by blast
  have le1: "n \<le> length h1" using "9.prems"(2) by (simp add: e1)
  from "9.IH"(2) [OF a1 [symmetric] a2 le1 s1] obtain ext2 where e2: "h2 = h1 @ ext2"
    and s2: "separate_from n h2" and n2: "list_all (new_since (length h1)) vs2" by blast
  from "9.prems"(1) a1 a2 have vs: "vs = v1 # vs2" and h': "h' = h2" by simp_all
  have "length h \<le> length h1" by (simp add: e1)
  with n2 have "list_all (new_since (length h)) vs2" by (rule list_all_new_since_mono)
  with n1 have "list_all (new_since (length h)) vs" by (simp add: vs)
  moreover have "h' = h @ (ext1 @ ext2)" by (simp add: h' e2 e1)
  ultimately show ?case using s2 h' by blast
next
  case (10 h)
  then show ?case by auto
next
  case (11 kv kvs h)
  obtain v1 h1 where a1: "allocate (snd kv) h = (v1, h1)" by (cases "allocate (snd kv) h")
  obtain vs2 h2 where a2: "allocate_entries kvs h1 = (vs2, h2)"
    by (cases "allocate_entries kvs h1")
  from "11.IH"(1) [OF a1 "11.prems"(2,3)] obtain ext1 where e1: "h1 = h @ ext1"
    and s1: "separate_from n h1" and n1: "new_since (length h) v1" by blast
  have le1: "n \<le> length h1" using "11.prems"(2) by (simp add: e1)
  from "11.IH"(2) [OF a1 [symmetric] a2 le1 s1] obtain ext2 where e2: "h2 = h1 @ ext2"
    and s2: "separate_from n h2" and n2: "list_all (new_since (length h1)) (map snd vs2)" by blast
  from "11.prems"(1) a1 a2 have vs: "es = (fst kv, v1) # vs2" and h': "h' = h2" by simp_all
  have "length h \<le> length h1" by (simp add: e1)
  with n2 have "list_all (new_since (length h)) (map snd vs2)" by (rule list_all_new_since_mono)
  with n1 have "list_all (new_since (length h)) (map snd es)" by (simp add: vs)
  moreover have "h' = h @ (ext1 @ ext2)" by (simp add: h' e2 e1)
  ultimately show ?case using s2 h' by blast
qed

lemma dict_set_values: "set (map snd (dict_set es k v)) \<subseteq> insert v (set (map snd es))"
  unfolding dict_set_def by (induction es) auto

lemma heap_set_item_Inr:
  assumes "heap_set_item h x key val = Inr h'"
  obtains a es where "x = VRef a" and "a < length h" and "h ! a = PDict es"
    and "h' = h[a := PDict (dict_set es key val)]"
  using assms unfolding heap_set_item_def
  by (auto split: pyval.splits pyobj.splits if_splits)

lemma heap_get_item_Inr:
  assumes "heap_get_item h x key = Inr v"
  obtains a es where "x = VRef a" and "a < length h" and "h ! a = PDict es"
    and "map_of es key = Some v"
  using assms unfolding heap_get_item_def
  by (auto split: pyval.splits pyobj.splits if_splits option.splits)

lemma set_item_separate:
  assumes sep: "separate_from n h" and val: "new_since n val"
    and a: "a < length h" "h ! a = PDict es"
  shows "separate_from n (h[a := PDict (dict_set es key val)])"
  unfolding separate_from_def
proof (intro allI impI)
  fix b assume b: "n \<le> b \<and> b < length (h[a := PDict (dict_set es key val)])"
  then have bl: "b < length h" by simp
  from sep b bl have old: "list_all (new_since n) (children (h ! b))"
    by (simp add: separate_from_def)
  show "list_all (new_since n) (children (h[a := PDict (dict_set es key val)] ! b))"
  proof (cases "b = a")
    case True
    from old True a(2) have "list_all (new_since n) (map snd es)" by simp
    then have "\<forall>x \<in> insert val (set (map snd es)). new_since n x"
      using val by (simp add: list_all_iff)
    then have "\<forall>x \<in> set (map snd (dict_set es key val)). new_since n x"
      using dict_set_values [of es key val] by blast
    then have "list_all (new_since n) (map snd (dict_set es key val))"
      by (simp only: list_all_iff)
    with True bl show ?thesis by simp
  next
    case False
    then have "h[a := PDict (dict_set es key val)] ! b = h ! b" by simp
    with old show ?thesis by simp
  qed
qed

lemma get_item_new:
  assumes "separate_from n h" and "n \<le> a" and "a < length h" and "h ! a = PDict es"
    and "map_of es key = Some v"
  shows "new_since n v"
proof -
  from assms(1-4) have "list_all (new_since n) (map snd es)"
    by (auto simp: separate_from_def)
  moreover from assms(5) have "v \<in> set (map snd es)"
    by (metis map_of_SomeD image_eqI set_map snd_conv)
  ultimately show ?thesis by (simp only: list_all_iff)
qed

lemma reach_valid: "a \<in> reach h v \<Longrightarrow> a < length h"
  by (induction rule: reach.induct) simp_all

lemma reach_new:
  assumes "separate_from n h" and "new_since n v" and "a \<in> reach h v"
  shows "n \<le> a"
  using assms(3)
proof (induction rule: reach.induct)
  case (root a)
  with assms(2) show ?case by simp
next
  case (child a b)
  from child(1) have "a < length h" by (rule reach_valid)
  with assms(1) child(4) have "list_all (new_since n) (children (h ! a))"
    by (simp add: separate_from_def)
  with child(2) have "new_since n (VRef b)" by (simp only: list_all_iff)
  then show ?case by simp
qed

lemma those_list_map_Some:
  "those_list (map f xs) = Some ys \<Longrightarrow> x \<in> set xs \<Longrightarrow> \<exists>y. f x = Some y"
proof (induction xs arbitrary: ys)
  case Nil
  then show ?case by simp
next
  case (Cons z zs)
  then show ?case by (cases "f z") (auto split: option.splits)
qed

lemma take_whole:
  assumes "take (length h) h2 = h"
  shows "length h \<le> length h2" and "a < length h \<Longrightarrow> h2 ! a = h ! a"
proof -
  have "length (take (length h) h2) = length h" using assms by simp
  then show "length h \<le> length h2" by simp
  assume "a < length h"
  then have "take (length h) h2 ! a = h2 ! a" by simp
  with assms show "h2 ! a = h ! a" by simp
qed

lemma json_dumps_frame:
  "json_dumps h markers v = Some d \<Longrightarrow> take (length h) h2 = h \<Longrightarrow> json_dumps h2 markers v = Some d"
proof (induction h markers v arbitrary: d rule: json_dumps.induct)
  case (6 h markers a)
  from "6.prems"(1) have ok: "\<not> (a \<in> set markers \<or> length h \<le> a)"
    by (auto simp: json_dumps.simps(6) split: if_splits)
  then have a: "a < length h" "a \<notin> set markers" by simp_all
  have len: "length h \<le> length h2" and same: "h2 ! a = h ! a"
    using take_whole [OF "6.prems"(2)] a(1) by simp_all
  have ok2: "\<not> (a \<in> set markers \<or> length h2 \<le> a)" using a len by simp
  show ?case
  proof (cases "h ! a")
    case (PList items)
    from "6.prems"(1) ok PList obtain ds where
      ds: "those_list (map (json_dumps h (a # markers)) items) = Some ds" and d: "d = JArr ds"
      by (auto simp: json_dumps.simps(6))
    have m: "map (json_dumps h2 (a # markers)) items = map (json_dumps h (a # markers)) items"
    proof (rule map_cong [OF refl])
      fix x assume x: "x \<in> set items"
      from those_list_map_Some [OF ds x] obtain y where y: "json_dumps h (a # markers) x = Some y"
        by blast
      from "6.IH"(1) [OF ok PList x y "6.prems"(2)] y
      show "json_dumps h2 (a # markers) x = json_dumps h (a # markers) x" by simp
    qed
    have "those_list (map (json_dumps h2 (a # markers)) items) = Some ds"
      unfolding m by (rule ds)
    with d ok2 same PList show ?thesis by (simp add: json_dumps.simps(6))
  next
    case (PDict entries)
    let ?f = "\<lambda>hp kv. map_option (Pair (fst kv)) (json_dumps hp (a # markers) (snd kv))"
    from "6.prems"(1) ok PDict obtain ds where
      ds: "those_list (map (?f h) entries) = Some ds" and d: "d = JObj ds"
      by (auto simp: json_dumps.simps(6))
    have m: "map (?f h2) entries = map (?f h) entries"
    proof (rule map_cong [OF refl])
      fix x assume x: "x \<in> set entries"
      from those_list_map_Some [OF ds x] obtain y where "?f h x = Some y" by blast
      then obtain y' where y: "json_dumps h (a # markers) (snd x) = Some y'" by auto
      from "6.IH"(2) [OF ok PDict x y "6.prems"(2)] y
      show "?f h2 x = ?f h x" by simp
    qed
    have "those_list (map (?f h2) entries) = Some ds"
      unfolding m by (rule ds)
    with d ok2 same PDict show ?thesis by (simp add: json_dumps.simps(6))
  qed
qed simp_all

text \<open>
  The objects that \<open>allocate\<close> creates for a document dump back to that document, in
  every heap that holds them unchanged; they lie in the part of the heap that the call
  added, so the markers of older and of later containers are never met.
\<close>

lemma same_between_prefix:
  assumes "same_between lo hi H (h1 @ ext)" and "lo' \<ge> lo" and "hi' \<le> length h1" and "hi' \<le> hi"
  shows "same_between lo' hi' H h1"
  unfolding same_between_def
proof (intro allI impI)
  fix x assume x: "lo' \<le> x \<and> x < hi'"
  with assms(2,4) have "lo \<le> x \<and> x < hi" by simp
  with assms(1) have "x < length H \<and> H ! x = (h1 @ ext) ! x" by (simp add: same_between_def)
  moreover have "(h1 @ ext) ! x = h1 ! x" using x assms(3) by (simp add: nth_append)
  ultimately show "x < length H \<and> H ! x = h1 ! x" by simp
qed

lemma same_between_sub:
  assumes "same_between lo hi H h" and "lo \<le> lo'" and "hi' \<le> hi"
  shows "same_between lo' hi' H h"
  using assms unfolding same_between_def by auto

lemma separate_from_0: "separate_from 0 h"
proof -
  have "new_since 0 v" for v by (cases v) simp_all
  then show ?thesis by (simp add: separate_from_def list_all_iff)
qed

lemma allocate_extends:
  "allocate j h = (v, h') \<Longrightarrow> \<exists>ext. h' = h @ ext"
  "allocate_items js h = (vs, h') \<Longrightarrow> \<exists>ext. h' = h @ ext"
  "allocate_entries kvs h = (es, h') \<Longrightarrow> \<exists>ext. h' = h @ ext"
  using allocate_grows [of _ h _ h' 0] separate_from_0 [of h] by blast+

lemma those_list_Some: "those_list (map Some xs) = Some xs"
  by (induction xs) simp_all

lemma allocate_dumps:
  "allocate j h = (v, h') \<Longrightarrow> same_between (length h) (length h') H h' \<Longrightarrow>
     (\<forall>x \<in> set m. x < length h \<or> length h' \<le> x) \<Longrightarrow> json_dumps H m v = Some j"
  "allocate_items js h = (vs, h') \<Longrightarrow> same_between (length h) (length h') H h' \<Longrightarrow>
     (\<forall>x \<in> set m. x < length h \<or> length h' \<le> x) \<Longrightarrow> map (json_dumps H m) vs = map Some js"
  "allocate_entries kvs h = (es, h') \<Longrightarrow> same_between (length h) (length h') H h' \<Longrightarrow>
     (\<forall>x \<in> set m. x < length h \<or> length h' \<le> x) \<Longrightarrow>
     map (\<lambda>kv. map_option (Pair (fst kv)) (json_dumps H m (snd kv))) es = map Some kvs"
proof (induction j h and js h and kvs h arbitrary: v h' m and vs h' m and es h' m
       rule: allocate_allocate_items_allocate_entries.induct)
  case (1 h)
  then show ?case by auto
next
  case (2 b h)
  then show ?case by auto
next
  case (3 i h)
  then show ?case by auto
next
  case (4 f h)
  then show ?case by auto
next
  case (5 s h)
  then show ?case by auto
next
  case (6 xs h)
  obtain items h1 where it: "allocate_items xs h = (items, h1)" by (cases "allocate_items xs h")
  from "6.prems"(1) it have v: "v = VRef (length h1)" and h': "h' = h1 @ [PList items]" by simp_all
  from allocate_extends(2) [OF it] have le: "length h \<le> length h1" by auto
  have lt: "length h1 < length h'" by (simp add: h')
  from "6.prems"(2) le lt have inH: "length h1 < length H" and at: "H ! length h1 = h' ! length h1"
    by (simp_all add: same_between_def)
  have obj: "H ! length h1 = PList items" using at by (simp add: h')
  have notm: "length h1 \<notin> set m"
  proof
    assume "length h1 \<in> set m"
    with "6.prems"(3) have "length h1 < length h \<or> length h' \<le> length h1" by blast
    with le lt show False by simp
  qed
  have sb: "same_between (length h) (length h1) H h1"
    using "6.prems"(2) unfolding h' by (rule same_between_prefix) simp_all
  have mk: "\<forall>x \<in> set (length h1 # m). x < length h \<or> length h1 \<le> x"
    using "6.prems"(3) lt by auto
  from "6.IH" [OF it sb mk]
  have "map (json_dumps H (length h1 # m)) items = map Some xs" .
  then have "those_list (map (json_dumps H (length h1 # m)) items) = Some xs"
    by (simp only: those_list_Some)
  with notm inH obj show ?case by (simp add: v json_dumps.simps(6))
next
  case (7 kvs h)
  obtain entries h1 where it: "allocate_entries kvs h = (entries, h1)"
    by (cases "allocate_entries kvs h")
  from "7.prems"(1) it have v: "v = VRef (length h1)" and h': "h' = h1 @ [PDict entries]"
    by simp_all
  from allocate_extends(3) [OF it] have le: "length h \<le> length h1" by auto
  have lt: "length h1 < length h'" by (simp add: h')
  from "7.prems"(2) le lt have inH: "length h1 < length H" and at: "H ! length h1 = h' ! length h1"
    by (simp_all add: same_between_def)
  have obj: "H ! length h1 = PDict entries" using at by (simp add: h')
  have notm: "length h1 \<notin> set m"
  proof
    assume "length h1 \<in> set m"
    with "7.prems"(3) have "length h1 < length h \<or> length h' \<le> length h1" by blast
    with le lt show False by simp
  qed
  have sb: "same_between (length h) (length h1) H h1"
    using "7.prems"(2) unfolding h' by (rule same_between_prefix) simp_all
  have mk: "\<forall>x \<in> set (length h1 # m). x < length h \<or> length h1 \<le> x"
    using "7.prems"(3) lt by auto
  from "7.IH" [OF it sb mk]
  have "map (\<lambda>kv. map_option (Pair (fst kv)) (json_dumps H (length h1 # m) (snd kv))) entries
          = map Some kvs" .
  then have "those_list (map (\<lambda>kv. map_option (Pair (fst kv))
                 (json_dumps H (length h1 # m) (snd kv))) entries) = Some kvs"
    by (simp only: those_list_Some)
  with notm inH obj show ?case by (simp add: v json_dumps.simps(6))
next
  case (8 h)
  then show ?case by auto
next
  case (9 x xs h)
  obtain v1 h1 where a1: "allocate x h = (v1, h1)" by (cases "allocate x h")
  obtain vs2 h2 where a2: "allocate_items xs h1 = (vs2, h2)" by (cases "allocate_items xs h1")
  from "9.prems"(1) a1 a2 have vs: "vs = v1 # vs2" and h': "h' = h2" by simp_all
  from allocate_extends(1) [OF a1] have le1: "length h \<le> length h1" by auto
  from allocate_extends(2) [OF a2] obtain ext2 where e2: "h2 = h1 @ ext2" by blast
  have sb1: "same_between (length h) (length h1) H h1"
    using "9.prems"(2) unfolding h' e2 by (rule same_between_prefix) simp_all
  have mk1: "\<forall>x \<in> set m. x < length h \<or> length h1 \<le> x"
    using "9.prems"(3) by (auto simp: h' e2)
  have sb2: "same_between (length h1) (length h2) H h2"
    using "9.prems"(2) le1 unfolding h' by (rule same_between_sub) simp
  have mk2: "\<forall>x \<in> set m. x < length h1 \<or> length h2 \<le> x"
    using "9.prems"(3) le1 by (auto simp: h')
  from "9.IH"(1) [OF a1 sb1 mk1] have d1: "json_dumps H m v1 = Some x" .
  from "9.IH"(2) [OF a1 [symmetric] a2 sb2 mk2]
  have d2: "map (json_dumps H m) vs2 = map Some xs" .
  from d1 d2 show ?case by (simp add: vs)
next
  case (10 h)
  then show ?case by auto
next
  case (11 kv kvs h)
  obtain v1 h1 where a1: "allocate (snd kv) h = (v1, h1)" by (cases "allocate (snd kv) h")
  obtain vs2 h2 where a2: "allocate_entries kvs h1 = (vs2, h2)"
    by (cases "allocate_entries kvs h1")
  from "11.prems"(1) a1 a2 have vs: "es = (fst kv, v1) # vs2" and h': "h' = h2" by simp_all
  from allocate_extends(1) [OF a1] have le1: "length h \<le> length h1" by auto
  from allocate_extends(3) [OF a2] obtain ext2 where e2: "h2 = h1 @ ext2" by blast
  have sb1: "same_between (length h) (length h1) H h1"
    using "11.prems"(2) unfolding h' e2 by (rule same_between_prefix) simp_all
  have mk1: "\<forall>x \<in> set m. x < length h \<or> length h1 \<le> x"
    using "11.prems"(3) by (auto simp: h' e2)
  have sb2: "same_between (length h1) (length h2) H h2"
    using "11.prems"(2) le1 unfolding h' by (rule same_between_sub) simp
  have mk2: "\<forall>x \<in> set m. x < length h1 \<or> length h2 \<le> x"
    using "11.prems"(3) le1 by (auto simp: h')
  from "11.IH"(1) [OF a1 sb1 mk1] have d1: "json_dumps H m v1 = Some (snd kv)" .
  from "11.IH"(2) [OF a1 [symmetric] a2 sb2 mk2]
  have d2: "map (\<lambda>kv. map_option (Pair (fst kv)) (json_dumps H m (snd kv))) vs2 = map Some kvs" .
  from d1 d2 show ?case by (simp add: vs)
qed

text \<open>
  An assignment into one \<open>dict\<close> among the values of allocated entries shows in the
  dump of that entry alone.
\<close>

lemma same_between_update:
  "same_between lo hi H0 h \<Longrightarrow> pa < lo \<or> hi \<le> pa \<Longrightarrow> same_between lo hi (H0[pa := obj]) h"
  unfolding same_between_def by auto

lemma same_between_refl: "hi \<le> length h \<Longrightarrow> same_between lo hi h h"
  unfolding same_between_def by auto

lemma dump_entries_dict_set:
  assumes "map (\<lambda>kv. map_option (Pair (fst kv)) (f (snd kv))) es = map Some kvs"
    and "f val = Some j"
  shows "map (\<lambda>kv. map_option (Pair (fst kv)) (f (snd kv))) (dict_set es key val)
           = map Some (dict_set kvs key j)"
  using assms(1)
proof (induction es arbitrary: kvs)
  case Nil
  with assms(2) show ?case by (simp add: dict_set_def)
next
  case (Cons e es)
  from Cons.prems obtain k kvs' where kvs: "kvs = k # kvs'"
    and hd: "map_option (Pair (fst e)) (f (snd e)) = Some k"
    and tl: "map (\<lambda>kv. map_option (Pair (fst kv)) (f (snd kv))) es = map Some kvs'"
    by (cases kvs) auto
  from hd have fk: "fst k = fst e" by auto
  from Cons.IH [OF tl]
  have ih: "map (\<lambda>kv. map_option (Pair (fst kv)) (f (snd kv))) (dict_set es key val)
           = map Some (dict_set kvs' key j)" .
  show ?case
  proof (cases "fst e = key")
    case True
    with fk tl assms(2) show ?thesis by (simp add: kvs dict_set_def)
  next
    case False
    with fk hd ih show ?thesis by (simp add: kvs dict_set_def)
  qed
qed

lemma dict_set_commute:
  "k \<noteq> k' \<Longrightarrow> k' \<in> fst ` set al \<Longrightarrow>
     dict_set (dict_set al k' v') k v = dict_set (dict_set al k v) k' v'"
  unfolding dict_set_def by (induction al) auto

lemma dumps_ref_valid: "json_dumps H m (VRef a) = Some d \<Longrightarrow> a < length H"
  by (auto simp: json_dumps.simps(6) split: if_splits)

lemma allocate_entries_lookup_bound:
  assumes "allocate_entries kvs h = (es, hc)" and "map_of es key = Some (VRef pa)"
  shows "pa < length hc"
proof -
  from allocate_extends(3) [OF assms(1)] have "length h \<le> length hc" by auto
  have "same_between (length h) (length hc) hc hc" by (rule same_between_refl) simp
  from allocate_dumps(3) [OF assms(1) this, of "[]"]
  have m: "map (\<lambda>kv. map_option (Pair (fst kv)) (json_dumps hc [] (snd kv))) es = map Some kvs"
    by simp
  from assms(2) have "(key, VRef pa) \<in> set es" by (rule map_of_SomeD)
  then have "map_option (Pair key) (json_dumps hc [] (VRef pa))
               \<in> set (map (\<lambda>kv. map_option (Pair (fst kv)) (json_dumps hc [] (snd kv))) es)"
    by force
  then have "map_option (Pair key) (json_dumps hc [] (VRef pa)) \<in> set (map Some kvs)"
    unfolding m .
  then obtain d where "json_dumps hc [] (VRef pa) = Some d" by auto
  then show ?thesis by (rule dumps_ref_valid)
qed

lemma allocate_entries_updated:
  assumes al: "allocate_entries kvs h = (es, hc)"
    and look: "map_of es key = Some (VRef pa)"
    and H0: "same_between (length h) (length hc) H0 hc"
    and obj: "H0 ! pa = PDict ps"
    and H: "H = H0[pa := PDict (dict_set ps tkey tval)]"
    and tval: "json_dumps H (pa # m) tval = Some tj"
    and mk: "\<forall>x \<in> set m. x < length h \<or> length hc \<le> x"
  shows "\<exists>pkvs. map_of kvs key = Some (JObj pkvs) \<and>
           map (\<lambda>kv. map_option (Pair (fst kv)) (json_dumps H m (snd kv))) es
             = map Some (dict_set kvs key (JObj (dict_set pkvs tkey tj)))"
  using al look H0 mk
proof (induction kvs arbitrary: h es)
  case Nil
  then show ?case by auto
next
  case (Cons kv kvs)
  obtain v1 h1 where a1: "allocate (snd kv) h = (v1, h1)" by (cases "allocate (snd kv) h")
  obtain vs2 h2 where a2': "allocate_entries kvs h1 = (vs2, h2)"
    by (cases "allocate_entries kvs h1")
  from Cons.prems(1) a1 a2' have es: "es = (fst kv, v1) # vs2" and h2: "h2 = hc" by simp_all
  from a2' h2 have a2: "allocate_entries kvs h1 = (vs2, hc)" by simp
  from allocate_extends(1) [OF a1] obtain e1 where e1: "h1 = h @ e1" by blast
  from allocate_extends(3) [OF a2] obtain e2 where e2: "hc = h1 @ e2" by blast
  have le1: "length h \<le> length h1" and le2: "length h1 \<le> length hc" by (simp_all add: e1 e2)
  have sb0: "same_between (length h) (length hc) H0 hc" by (rule Cons.prems(3))
  have mk0: "\<forall>x \<in> set m. x < length h \<or> length hc \<le> x" by (rule Cons.prems(4))
  show ?case
  proof (cases "fst kv = key")
    case False
    with Cons.prems(2) have look2: "map_of vs2 key = Some (VRef pa)" by (simp add: es)
    have pa: "length h1 \<le> pa"
    proof -
      from allocate_grows(3) [where n = 0, OF a2 _ separate_from_0]
      have "list_all (new_since (length h1)) (map snd vs2)" by simp
      moreover from look2 have "VRef pa \<in> set (map snd vs2)"
        by (metis map_of_SomeD image_eqI set_map snd_conv)
      ultimately have "new_since (length h1) (VRef pa)" by (simp only: list_all_iff)
      then show ?thesis by simp
    qed
    have "same_between (length h) (length h1) H0 h1"
      using sb0 unfolding e2 by (rule same_between_prefix) (simp_all add: e1)
    then have sb1: "same_between (length h) (length h1) H h1"
      unfolding H using pa by (intro same_between_update) simp_all
    have mk1: "\<forall>x \<in> set m. x < length h \<or> length h1 \<le> x" using mk0 le2 by auto
    from allocate_dumps(1) [OF a1 sb1 mk1] have d1: "json_dumps H m v1 = Some (snd kv)" .
    have sb2: "same_between (length h1) (length hc) H0 hc"
      using sb0 le1 by (rule same_between_sub) simp
    have mk2: "\<forall>x \<in> set m. x < length h1 \<or> length hc \<le> x" using mk0 le1 by auto
    from Cons.IH [OF a2 look2 sb2 mk2] obtain pkvs where
      p: "map_of kvs key = Some (JObj pkvs)"
      and r: "map (\<lambda>kv. map_option (Pair (fst kv)) (json_dumps H m (snd kv))) vs2
             = map Some (dict_set kvs key (JObj (dict_set pkvs tkey tj)))" by blast
    have "map_of (kv # kvs) key = Some (JObj pkvs)" using False p by (cases kv) simp
    moreover have "map (\<lambda>kv. map_option (Pair (fst kv)) (json_dumps H m (snd kv))) es
             = map Some (dict_set (kv # kvs) key (JObj (dict_set pkvs tkey tj)))"
      using False d1 r by (simp add: es dict_set_def)
    ultimately show ?thesis by blast
  next
    case True
    with Cons.prems(2) have v1: "v1 = VRef pa" by (simp add: es)
    have "\<exists>pkvs hp. snd kv = JObj pkvs \<and> allocate_entries pkvs h = (ps, hp)
             \<and> pa = length hp \<and> h1 = hp @ [PDict ps]"
    proof (cases "snd kv")
      case (JObj pkvs)
      obtain pes hp where pe: "allocate_entries pkvs h = (pes, hp)"
        by (cases "allocate_entries pkvs h")
      from a1 JObj pe v1 have pa: "pa = length hp" and h1: "h1 = hp @ [PDict pes]" by simp_all
      have "pa < length h1" by (simp add: pa h1)
      moreover from allocate_extends(3) [OF pe] have "length h \<le> pa" by (auto simp: pa)
      ultimately have "H0 ! pa = hc ! pa" using sb0 le2 by (simp add: same_between_def)
      also have "hc ! pa = h1 ! pa" using \<open>pa < length h1\<close> by (simp add: e2 nth_append)
      also have "h1 ! pa = PDict pes" by (simp add: pa h1)
      finally have "ps = pes" using obj by simp
      with JObj pe pa h1 show ?thesis by simp
    next
      case (JArr xs)
      obtain items hp where pe: "allocate_items xs h = (items, hp)"
        by (cases "allocate_items xs h")
      from a1 JArr pe v1 have pa: "pa = length hp" and h1: "h1 = hp @ [PList items]" by simp_all
      have "pa < length h1" by (simp add: pa h1)
      moreover from allocate_extends(2) [OF pe] have "length h \<le> pa" by (auto simp: pa)
      ultimately have "H0 ! pa = hc ! pa" using sb0 le2 by (simp add: same_between_def)
      also have "hc ! pa = h1 ! pa" using \<open>pa < length h1\<close> by (simp add: e2 nth_append)
      also have "h1 ! pa = PList items" by (simp add: pa h1)
      finally show ?thesis using obj by simp
    qed (use a1 v1 in auto)
    then obtain pkvs hp where kvj: "snd kv = JObj pkvs"
      and pe: "allocate_entries pkvs h = (ps, hp)"
      and pa: "pa = length hp" and h1: "h1 = hp @ [PDict ps]" by blast
    from allocate_extends(3) [OF pe] have lep: "length h \<le> length hp" by auto
    have pa1: "pa < length h1" by (simp add: pa h1)
    have paH0: "pa < length H0" using sb0 lep pa1 le2 by (simp add: same_between_def pa)
    have Hpa: "H ! pa = PDict (dict_set ps tkey tval)" "pa < length H"
      using paH0 by (simp_all add: H)
    have notm: "pa \<notin> set m"
    proof
      assume "pa \<in> set m"
      with mk0 have "pa < length h \<or> length hc \<le> pa" by blast
      with lep pa1 le2 show False by (simp add: pa)
    qed
    have "same_between (length h) (length hp) H0 hp"
    proof -
      have "hc = hp @ ([PDict ps] @ e2)" by (simp add: e2 h1)
      with sb0 have "same_between (length h) (length hc) H0 (hp @ ([PDict ps] @ e2))" by simp
      then show ?thesis by (rule same_between_prefix) (simp_all add: e2 h1)
    qed
    then have sbp: "same_between (length h) (length hp) H hp"
      unfolding H by (intro same_between_update) (simp_all add: pa)
    have mkp: "\<forall>x \<in> set (pa # m). x < length h \<or> length hp \<le> x"
      using mk0 le2 pa1 by (auto simp: pa)
    from allocate_dumps(3) [OF pe sbp mkp]
    have "map (\<lambda>kv. map_option (Pair (fst kv)) (json_dumps H (pa # m) (snd kv))) ps
            = map Some pkvs" .
    from dump_entries_dict_set [OF this tval]
    have "map (\<lambda>kv. map_option (Pair (fst kv)) (json_dumps H (pa # m) (snd kv)))
               (dict_set ps tkey tval) = map Some (dict_set pkvs tkey tj)" .
    then have "those_list (map (\<lambda>kv. map_option (Pair (fst kv)) (json_dumps H (pa # m) (snd kv)))
               (dict_set ps tkey tval)) = Some (dict_set pkvs tkey tj)"
      by (simp only: those_list_Some)
    with notm Hpa have d1: "json_dumps H m v1 = Some (JObj (dict_set pkvs tkey tj))"
      by (simp add: v1 json_dumps.simps(6))
    have "same_between (length h1) (length hc) H0 hc"
      using sb0 le1 by (rule same_between_sub) simp
    then have sb2: "same_between (length h1) (length hc) H hc"
      unfolding H using pa1 by (intro same_between_update) simp_all
    have mk2: "\<forall>x \<in> set m. x < length h1 \<or> length hc \<le> x" using mk0 le1 by auto
    from allocate_dumps(3) [OF a2 sb2 mk2]
    have r: "map (\<lambda>kv. map_option (Pair (fst kv)) (json_dumps H m (snd kv))) vs2 = map Some kvs" .
    have "map_of (kv # kvs) key = Some (JObj pkvs)" using True kvj by (cases kv) simp
    moreover have "map (\<lambda>kv. map_option (Pair (fst kv)) (json_dumps H m (snd kv))) es
             = map Some (dict_set (kv # kvs) key (JObj (dict_set pkvs tkey tj)))"
      using True d1 r by (simp add: es dict_set_def)
    ultimately show ?thesis by blast
  qed
qed

text \<open>
  The document that the heap run returns is the one that \<open>generate_new_schema\<close> on
  values returns for the base document.
\<close>

lemma generate_new_schema_heap_agrees:
  assumes gen: "generate_new_schema_heap h base_schema tag_registry new_version = Inr (schema, h')"
  shows "\<exists>d d'. json_dumps h [] base_schema = Some d
           \<and> generate_new_schema d tag_registry new_version = Inr d'
           \<and> json_dumps h' [] schema = Some d'"
proof -
  define tagsdef where "tagsdef = tags_definition (build_tag_properties tag_registry)"
  from gen obtain doc copy h1 title h2 tags h3 props where
    d: "json_dumps h [] base_schema = Some doc"
    and rt: "json_round_trip doc = Inr copy"
    and al1: "allocate copy h = (schema, h1)"
    and ti: "schema_title new_version = Inr title"
    and s1: "heap_set_item h1 schema ''title'' (VStr title) = Inr h2"
    and al2: "allocate tagsdef h2 = (tags, h3)"
    and g: "heap_get_item h3 schema ''properties'' = Inr props"
    and s2: "heap_set_item h3 props ''tags'' tags = Inr h'"
    unfolding generate_new_schema_heap_def tagsdef_def
    by (auto split: option.splits sum.splits prod.splits)
  from rt have copy: "copy = doc" and rt': "json_round_trip doc = Inr doc"
    by (auto simp: json_round_trip_def split: if_splits)
  from s1 obtain sa es where sa: "schema = VRef sa" "sa < length h1" "h1 ! sa = PDict es"
    and h2: "h2 = h1[sa := PDict (dict_set es ''title'' (VStr title))]"
    by (rule heap_set_item_Inr)
  have "\<exists>kvs hc. doc = JObj kvs \<and> allocate_entries kvs h = (es, hc) \<and> sa = length hc
          \<and> h1 = hc @ [PDict es]"
  proof (cases doc)
    case (JObj kvs)
    obtain es' hc where ae: "allocate_entries kvs h = (es', hc)"
      by (cases "allocate_entries kvs h")
    from al1 JObj ae sa(1) have "sa = length hc" and "h1 = hc @ [PDict es']"
      by (simp_all add: copy)
    moreover from this sa(3) have "es = es'" by simp
    ultimately show ?thesis using JObj ae by simp
  next
    case (JArr xs)
    obtain items hc where ae: "allocate_items xs h = (items, hc)"
      by (cases "allocate_items xs h")
    from al1 JArr ae sa(1) have "sa = length hc" and "h1 = hc @ [PList items]"
      by (simp_all add: copy)
    with sa(3) show ?thesis by simp
  qed (use al1 sa(1) copy in auto)
  then obtain kvs hc where doc: "doc = JObj kvs" and ae: "allocate_entries kvs h = (es, hc)"
    and sa_hc: "sa = length hc" and h1: "h1 = hc @ [PDict es]" by blast
  define es2 where "es2 = dict_set es ''title'' (VStr title)"
  have len2: "length h2 = Suc sa" by (simp add: h2 h1 sa_hc)
  have h2_sa: "h2 ! sa = PDict es2" by (simp add: h2 h1 sa_hc es2_def)
  have h2_low: "x < sa \<Longrightarrow> h2 ! x = hc ! x" for x
    by (simp add: h2 h1 sa_hc nth_append)
  from allocate_extends(1) [OF al2] obtain ext3 where e3: "h3 = h2 @ ext3" by blast
  have h3_low: "x < Suc sa \<Longrightarrow> h3 ! x = h2 ! x" for x
    using len2 by (simp add: e3 nth_append)
  from g obtain ga gs where ga: "schema = VRef ga" "h3 ! ga = PDict gs"
    and look_gs: "map_of gs ''properties'' = Some props"
    by (rule heap_get_item_Inr)
  from ga(1) sa(1) have "ga = sa" by simp
  with ga(2) h3_low [of sa] h2_sa have "gs = es2" by simp
  with look_gs have "map_of es2 ''properties'' = Some props" by simp
  then have look_es: "map_of es ''properties'' = Some props"
    by (simp add: es2_def map_of_dict_set)
  from s2 obtain pa ps where pa: "props = VRef pa" "pa < length h3" "h3 ! pa = PDict ps"
    and h': "h' = h3[pa := PDict (dict_set ps ''tags'' tags)]"
    by (rule heap_set_item_Inr)
  from look_es pa(1) have look: "map_of es ''properties'' = Some (VRef pa)" by simp
  from allocate_entries_lookup_bound [OF ae look] have pa_sa: "pa < sa" by (simp add: sa_hc)
  have sb0: "same_between (length h) (length hc) h3 hc"
    unfolding same_between_def
  proof (intro allI impI)
    fix x assume "length h \<le> x \<and> x < length hc"
    then have x: "x < sa" by (simp add: sa_hc)
    then have "h3 ! x = hc ! x" using h3_low [of x] h2_low [of x] by simp
    moreover have "x < length h3" using x len2 by (simp add: e3)
    ultimately show "x < length h3 \<and> h3 ! x = hc ! x" by simp
  qed
  have "same_between (length h2) (length h3) h3 h3" by (rule same_between_refl) simp
  then have sbt: "same_between (length h2) (length h3) h' h3"
    unfolding h' using pa_sa len2 by (intro same_between_update) simp_all
  have mkt: "\<forall>x \<in> set [pa, sa]. x < length h2 \<or> length h3 \<le> x"
    using pa_sa len2 by simp
  from allocate_dumps(1) [OF al2 sbt mkt]
  have tags: "json_dumps h' (pa # [sa]) tags = Some tagsdef" by simp
  have mk: "\<forall>x \<in> set [sa]. x < length h \<or> length hc \<le> x" by (simp add: sa_hc)
  from allocate_entries_updated [OF ae look sb0 pa(3) h' tags mk] obtain pkvs where
    pk: "map_of kvs ''properties'' = Some (JObj pkvs)"
    and r: "map (\<lambda>kv. map_option (Pair (fst kv)) (json_dumps h' [sa] (snd kv))) es
             = map Some (dict_set kvs ''properties'' (JObj (dict_set pkvs ''tags'' tagsdef)))"
    by blast
  define X where "X = JObj (dict_set pkvs ''tags'' tagsdef)"
  have "json_dumps h' [sa] (VStr title) = Some (JStr title)" by simp
  from dump_entries_dict_set [OF r [folded X_def] this, of "''title''"]
  have "map (\<lambda>kv. map_option (Pair (fst kv)) (json_dumps h' [sa] (snd kv))) es2
          = map Some (dict_set (dict_set kvs ''properties'' X) ''title'' (JStr title))"
    by (simp only: es2_def)
  then have "those_list (map (\<lambda>kv. map_option (Pair (fst kv)) (json_dumps h' [sa] (snd kv))) es2)
          = Some (dict_set (dict_set kvs ''properties'' X) ''title'' (JStr title))"
    by (simp only: those_list_Some)
  moreover have "h' ! sa = PDict es2"
    using pa_sa h3_low [of sa] h2_sa by (simp add: h')
  moreover have "sa < length h'" using len2 by (simp add: h' e3)
  ultimately have res: "json_dumps h' [] schema
      = Some (JObj (dict_set (dict_set kvs ''properties'' X) ''title'' (JStr title)))"
    by (simp add: sa(1) json_dumps.simps(6))
  have "''properties'' \<in> fst ` set kvs" using pk by (metis map_of_SomeD image_eqI fst_conv)
  then have comm: "dict_set (dict_set kvs ''properties'' X) ''title'' (JStr title)
           = dict_set (dict_set kvs ''title'' (JStr title)) ''properties'' X"
    by (intro dict_set_commute) simp_all
  have mp: "map_of (dict_set kvs ''title'' (JStr title)) ''properties'' = Some (JObj pkvs)"
    using pk by (simp add: map_of_dict_set)
  have rtk: "json_round_trip (JObj kvs) = Inr (JObj kvs)" using rt' doc by simp
  have "generate_new_schema doc tag_registry new_version
      = Inr (JObj (dict_set (dict_set kvs ''title'' (JStr title)) ''properties'' X))"
    unfolding generate_new_schema_def doc rtk ti
    by (simp add: Let_def mp X_def tagsdef_def)
  with d res comm show ?thesis by simp
qed

lemma example_generate_heap:
  "generate_new_schema_heap example_heap (VRef 1) example_registry 2
     = Inr (VRef 3, example_generated_heap)"
  by code_simp

lemma example_reach: "2 \<in> reach example_generated_heap (VRef 3)"
proof (rule reach.child [of 3])
  show "3 \<in> reach example_generated_heap (VRef 3)"
    by (rule reach.root) (simp_all add: example_generated_heap_def example_heap_def)
  show "VRef 2 \<in> set (children (example_generated_heap ! 3))"
    by (simp add: example_generated_heap_def example_heap_def)
  show "2 < length example_generated_heap"
    by (simp add: example_generated_heap_def example_heap_def)
qed

text \<open>On the example the heap run and the run on values return the same document.\<close>

lemma example_heap_agrees:
  "json_dumps example_heap [] (VRef 1)
     = Some (JObj [(''title'', JStr ''PlaneQuery Aircraft Community Submission (v1)''),
                   (''properties'', JObj [(''type'', JStr ''object'')])])"
  "map_option Inr (json_dumps example_generated_heap [] (VRef 3))
     = Some (generate_new_schema
               (JObj [(''title'', JStr ''PlaneQuery Aircraft Community Submission (v1)''),
                      (''properties'', JObj [(''type'', JStr ''object'')])])
               example_registry 2)"
  by code_simp+

text \<open>
  C6. When \<open>generate_new_schema\<close> returns, the returned document is, as a value, the
  document generated from the value of the base document, and every object of it was
  created by the call: its address lies beyond the heap the call started from, so it is
  no object of the base document. The call changed no object that was there before. A
  later change to any object of the returned document, whatever it puts there, leaves
  all the earlier objects as they were, and the base document still dumps to the same
  text.
\<close>

theorem generated_schema_shares_nothing:
  assumes gen: "generate_new_schema_heap h base_schema tag_registry new_version = Inr (schema, h')"
    and a: "a \<in> reach h' schema"
  shows "(\<exists>d d'. json_dumps h [] base_schema = Some d
            \<and> generate_new_schema d tag_registry new_version = Inr d'
            \<and> json_dumps h' [] schema = Some d')
       \<and> length h \<le> a \<and> a \<notin> reach h base_schema
       \<and> take (length h) h' = h
       \<and> take (length h) (h'[a := obj]) = h
       \<and> json_dumps (h'[a := obj]) [] base_schema = json_dumps h [] base_schema"
proof -
  from gen obtain doc copy h1 title h2 tags h3 props where
    d: "json_dumps h [] base_schema = Some doc"
    and al1: "allocate copy h = (schema, h1)"
    and s1: "heap_set_item h1 schema ''title'' (VStr title) = Inr h2"
    and al2: "allocate (tags_definition (build_tag_properties tag_registry)) h2 = (tags, h3)"
    and g: "heap_get_item h3 schema ''properties'' = Inr props"
    and s2: "heap_set_item h3 props ''tags'' tags = Inr h'"
    unfolding generate_new_schema_heap_def
    by (auto split: option.splits sum.splits prod.splits)
  define n where "n = length h"
  have sep0: "separate_from n h" by (auto simp: separate_from_def n_def)
  have le0: "n \<le> length h" by (simp add: n_def)
  from allocate_grows(1) [OF al1 le0 sep0] obtain ext1 where e1: "h1 = h @ ext1"
    and sep1: "separate_from n h1" and new_schema: "new_since n schema"
    by (auto simp: n_def)
  have t1: "take n h1 = h" by (simp add: e1 n_def)
  from s1 obtain sa es where sa: "schema = VRef sa" "sa < length h1" "h1 ! sa = PDict es"
    and h2: "h2 = h1[sa := PDict (dict_set es ''title'' (VStr title))]"
    by (rule heap_set_item_Inr)
  have n_sa: "n \<le> sa" using new_schema sa(1) by simp
  have sep2: "separate_from n h2"
    unfolding h2 using sep1 _ sa(2,3) by (rule set_item_separate) simp
  have t2: "take n h2 = h" unfolding h2 using n_sa t1 by (simp add: take_update_cancel)
  have le2: "n \<le> length h2" by (simp add: h2 e1 n_def)
  from allocate_grows(1) [OF al2 le2 sep2] obtain ext3 where e3: "h3 = h2 @ ext3"
    and sep3: "separate_from n h3" and new_tags2: "new_since (length h2) tags"
    by blast
  have new_tags: "new_since n tags" using new_tags2 le2 by (rule new_since_mono)
  have t3: "take n h3 = h" using t2 le2 by (simp add: e3)
  from g obtain ga gs where ga: "schema = VRef ga" "ga < length h3" "h3 ! ga = PDict gs"
    and props: "map_of gs ''properties'' = Some props"
    by (rule heap_get_item_Inr)
  have n_ga: "n \<le> ga" using new_schema ga(1) by simp
  have new_props: "new_since n props"
    using sep3 n_ga ga(2,3) props by (rule get_item_new)
  from s2 obtain pa ps where pa: "props = VRef pa" "pa < length h3" "h3 ! pa = PDict ps"
    and h': "h' = h3[pa := PDict (dict_set ps ''tags'' tags)]"
    by (rule heap_set_item_Inr)
  have n_pa: "n \<le> pa" using new_props pa(1) by simp
  have sep': "separate_from n h'"
    unfolding h' using sep3 new_tags pa(2,3) by (rule set_item_separate)
  have t': "take n h' = h" unfolding h' using n_pa t3 by (simp add: take_update_cancel)
  have n_a: "n \<le> a" using sep' new_schema a by (rule reach_new)
  have t'': "take n (h'[a := obj]) = h" using n_a t' by (simp add: take_update_cancel)
  have "a \<notin> reach h base_schema"
  proof
    assume "a \<in> reach h base_schema"
    then have "a < length h" by (rule reach_valid)
    with n_a show False by (simp add: n_def)
  qed
  moreover have "json_dumps (h'[a := obj]) [] base_schema = json_dumps h [] base_schema"
    using json_dumps_frame [OF d, of "h'[a := obj]"] t'' d by (simp add: n_def)
  ultimately show ?thesis
    using n_a t' t'' generate_new_schema_heap_agrees [OF gen] by (simp add: n_def)
qed

theorem generated_schema_shares_nothing_witness:
  "generate_new_schema_heap example_heap (VRef 1) example_registry 2
     = Inr (VRef 3, example_generated_heap)
   \<and> 2 \<in> reach example_generated_heap (VRef 3)
   \<and> length example_heap \<le> 2
   \<and> 2 \<notin> reach example_heap (VRef 1)
   \<and> take (length example_heap) (example_generated_heap[2 := PDict []]) = example_heap
   \<and> json_dumps (example_generated_heap[2 := PDict []]) [] (VRef 1)
       = json_dumps example_heap [] (VRef 1)"
  using generated_schema_shares_nothing [OF example_generate_heap example_reach, where obj = "PDict []"]
    example_generate_heap example_reach
  by simp

end
